theory Spec2Isabelle
  imports Main "HOL-Library.Char_ord" "HOL-Library.Word" "HOL-Library.Sublist"
begin

unbundle bit_operations_syntax

section \<open>C strings and cursors\<close>

text \<open>
  A C string is modelled by the list of its bytes; the terminating zero byte is implicit
  after the last element.  A cursor \<^verbatim>\<open>char* s\<close> into a string is the suffix that starts at the
  cursor, so \<^verbatim>\<open>s++\<close> is \<open>tl s\<close> and \<^verbatim>\<open>s + k\<close> is \<open>drop k s\<close>.  Reading \<^verbatim>\<open>*s\<close> at the end of the
  list yields the terminator.  A zero byte inside the list is read as a terminator too, as C
  does.  Every look-ahead \<^verbatim>\<open>s[k]\<close> of the validators is made only after \<^verbatim>\<open>s[k-1]\<close> was seen not
  to be the terminator, so no read of theirs goes past the terminator.  A \<^verbatim>\<open>NULL\<close> result is
  \<open>None\<close>.
\<close>

datatype json_node_type_t =
  JSON_INVALID | JSON_OBJECT | JSON_ARRAY | JSON_TRUE | JSON_FALSE | JSON_NULL
  | JSON_NUMBER | JSON_STRING

abbreviation NUL :: char where
  "NUL \<equiv> CHR 0x00"

abbreviation DQUOTE :: char where
  "DQUOTE \<equiv> CHR 0x22"

abbreviation BACKSLASH :: char where
  "BACKSLASH \<equiv> CHR 0x5C"

definition deref :: "string \<Rightarrow> char" where
  "deref s = (case s of [] \<Rightarrow> NUL | c # _ \<Rightarrow> c)"

definition idx :: "string \<Rightarrow> nat \<Rightarrow> char" where
  "idx s k = deref (drop k s)"

text \<open>\<^verbatim>\<open>strstr(s, lit) == s\<close>: the string starts with the literal.\<close>

definition starts_with :: "string \<Rightarrow> string \<Rightarrow> bool" where
  "starts_with s lit = (take (length lit) s = lit)"

definition p_is_whitespace :: "char \<Rightarrow> bool" where
  "p_is_whitespace c =
     (c = CHR '' '' \<or> c = CHR 0x0D \<or> c = CHR 0x0A \<or> c = CHR 0x09)"

text \<open>\<^verbatim>\<open>c >= '0' && c <= '9'\<close>, and the three ranges of a hexadecimal digit.\<close>

definition is_digit :: "char \<Rightarrow> bool" where
  "is_digit c = (CHR ''0'' \<le> c \<and> c \<le> CHR ''9'')"

definition is_hex :: "char \<Rightarrow> bool" where
  "is_hex c =
     ((CHR ''0'' \<le> c \<and> c \<le> CHR ''9'') \<or> (CHR ''a'' \<le> c \<and> c \<le> CHR ''f'')
      \<or> (CHR ''A'' \<le> c \<and> c \<le> CHR ''F''))"

fun p_eat_whitespace :: "string \<Rightarrow> string option" where
  "p_eat_whitespace [] = None"
| "p_eat_whitespace (c # s) =
     (if c = NUL then None
      else if p_is_whitespace c then p_eat_whitespace s
      else Some (c # s))"

section \<open>The grammar validator\<close>

subsection \<open>Strings: \<^verbatim>\<open>p_is_valid_string\<close>\<close>

definition is_simple_escape :: "char \<Rightarrow> bool" where
  "is_simple_escape c =
     (c = BACKSLASH \<or> c = DQUOTE \<or> c = CHR ''/'' \<or> c = CHR ''b'' \<or> c = CHR ''f''
      \<or> c = CHR ''n'' \<or> c = CHR ''r'' \<or> c = CHR ''t'')"

text \<open>
  The \<^verbatim>\<open>while(1)\<close> loop of \<^verbatim>\<open>p_is_valid_string\<close>.  The argument is the cursor after the
  \<^verbatim>\<open>s++\<close> that opens each iteration.  A simple escape advances by one more (\<open>drop 2\<close> with the
  next iteration's increment); a \<^verbatim>\<open>\u\<close> escape whose four following bytes are hexadecimal
  digits advances by five more (\<open>drop 6\<close>).  After the closing quote the cursor is stepped once
  and must not be at the terminator.
\<close>

function string_loop :: "string \<Rightarrow> string option" where
  "string_loop s =
     (if deref s = NUL then None
      else if deref s = DQUOTE then
        (if deref (tl s) = NUL then None else Some (tl s))
      else if deref s = BACKSLASH then
        (if idx s 1 = NUL then None
         else if is_simple_escape (idx s 1) then string_loop (drop 2 s)
         else if idx s 1 = CHR ''u'' then
           (if idx s 2 = NUL \<or> idx s 3 = NUL \<or> idx s 4 = NUL \<or> idx s 5 = NUL then None
            else if is_hex (idx s 2) \<and> is_hex (idx s 3) \<and> is_hex (idx s 4) \<and> is_hex (idx s 5)
              then string_loop (drop 6 s)
            else None)
         else None)
      else string_loop (tl s))"
  by pat_completeness auto
termination
  by (relation "measure length") (auto simp: deref_def split: list.splits)

declare string_loop.simps [simp del]

definition p_is_valid_string :: "string \<Rightarrow> string option" where
  "p_is_valid_string s = (if deref s \<noteq> DQUOTE then None else string_loop (tl s))"

subsection \<open>Numbers: \<^verbatim>\<open>p_is_valid_number\<close>\<close>

text \<open>\<^verbatim>\<open>while(*s >= '0' && *s <= '9') s++;\<close>\<close>

fun eat_digits :: "string \<Rightarrow> string" where
  "eat_digits [] = []"
| "eat_digits (c # s) = (if is_digit c then eat_digits s else c # s)"

text \<open>\<^verbatim>\<open>*s == ',' || p_is_whitespace(*s)\<close>\<close>

definition is_number_end :: "char \<Rightarrow> bool" where
  "is_number_end c = (c = CHR '','' \<or> p_is_whitespace c)"

text \<open>The exponent block and the final \<^verbatim>\<open>return NULL\<close> (lines 198 to 222).\<close>

definition number_exponent :: "string \<Rightarrow> string option" where
  "number_exponent s =
     (if deref s = CHR ''e'' \<or> deref s = CHR ''E'' then
        (let s1 = tl s in
         if deref s1 = NUL then None
         else
           (let s2 = (if deref s1 = CHR ''-'' \<or> deref s1 = CHR ''+'' then tl s1 else s1) in
            if deref s2 = NUL then None
            else
              (let s3 = eat_digits s2 in
               if deref s3 = NUL then None
               else if is_number_end (deref s3) then Some s3
               else None)))
      else None)"

text \<open>
  The fraction block (lines 186 to 196), followed by the exponent block.  The source eats
  digits with the cursor still on the \<^verbatim>\<open>'.'\<close>.
\<close>

definition number_fraction :: "string \<Rightarrow> string option" where
  "number_fraction s =
     (if deref s = CHR ''.'' then
        (let s1 = eat_digits s in
         if deref s1 = NUL then None
         else if is_number_end (deref s1) then Some s1
         else number_exponent s1)
      else number_exponent s)"

definition p_is_valid_number :: "string \<Rightarrow> string option" where
  "p_is_valid_number s0 =
     (let s = (if deref s0 = CHR ''-'' then tl s0 else s0) in
      if deref s = NUL then None
      else if deref s = CHR ''0'' \<and> idx s 1 \<noteq> CHR ''.'' then None
      else
        (let s1 = eat_digits s in
         if deref s1 = NUL then None
         else if is_number_end (deref s1) then Some s1
         else number_fraction s1))"

subsection \<open>Objects and arrays: \<^verbatim>\<open>p_is_valid_json\<close>\<close>

text \<open>
  Two straight-line pieces of the loops of \<^verbatim>\<open>p_is_valid_json\<close> are named.  \<open>member_key\<close> is the
  key of an object member up to the start of its value: the key string, whitespace, the colon,
  whitespace (lines 242 to 254).  \<open>after_value\<close> is what follows a value: whitespace, then the
  closing character (return the cursor after it), or a comma, whitespace and a character that
  is not the closing one (next iteration), anything else being malformed (lines 280 to 302 for
  objects, 347 to 369 for arrays, which differ in the closing character only).
\<close>

datatype step = Return "string option" | Continue string

definition member_key :: "string \<Rightarrow> string option" where
  "member_key s =
     (case p_is_valid_string s of None \<Rightarrow> None | Some s1 \<Rightarrow>
       (case p_eat_whitespace s1 of None \<Rightarrow> None | Some s2 \<Rightarrow>
         (if deref s2 \<noteq> CHR '':'' then None else p_eat_whitespace (tl s2))))"

definition after_value :: "char \<Rightarrow> string \<Rightarrow> step" where
  "after_value close s =
     (case p_eat_whitespace s of None \<Rightarrow> Return None | Some s1 \<Rightarrow>
       (if deref s1 = close then Return (Some (tl s1))
        else if deref s1 = CHR '','' then
          (case p_eat_whitespace (tl s1) of None \<Rightarrow> Return None | Some s2 \<Rightarrow>
            (if deref s2 = close then Return None else Continue s2))
        else Return None))"

text \<open>
  \<open>object_loop\<close> and \<open>array_loop\<close> are the two \<^verbatim>\<open>while(1)\<close> loops; \<open>valid_value\<close> is the
  dispatch on the first character of a value, which the source writes out once in each loop
  (lines 262 to 274 and 329 to 341).
\<close>

function p_is_valid_json :: "string \<Rightarrow> json_node_type_t \<Rightarrow> string option"
  and object_loop :: "string \<Rightarrow> string option"
  and array_loop :: "string \<Rightarrow> string option"
  and valid_value :: "string \<Rightarrow> string option"
where
  "p_is_valid_json s t =
     (if t = JSON_OBJECT then
        (if deref s \<noteq> CHR ''{'' then None
         else (case p_eat_whitespace (tl s) of None \<Rightarrow> None | Some s1 \<Rightarrow> object_loop s1))
      else if t = JSON_ARRAY then
        (if deref s \<noteq> CHR ''['' then None
         else (case p_eat_whitespace (tl s) of None \<Rightarrow> None | Some s1 \<Rightarrow> array_loop s1))
      else None)"
| "object_loop s =
     (if deref s = CHR ''}'' then Some (tl s)
      else if deref s = DQUOTE then
        (case member_key s of None \<Rightarrow> None | Some s3 \<Rightarrow>
          (case valid_value s3 of None \<Rightarrow> None | Some s4 \<Rightarrow>
            (case after_value (CHR ''}'') s4 of Return r \<Rightarrow> r | Continue s6 \<Rightarrow> object_loop s6)))
      else None)"
| "array_loop s =
     (if deref s = CHR '']'' then Some (tl s)
      else
        (case valid_value s of None \<Rightarrow> None | Some s1 \<Rightarrow>
          (case after_value (CHR '']'') s1 of Return r \<Rightarrow> r | Continue s3 \<Rightarrow> array_loop s3)))"
| "valid_value s =
     (if deref s = CHR ''{'' then p_is_valid_json s JSON_OBJECT
      else if deref s = CHR ''['' then p_is_valid_json s JSON_ARRAY
      else if starts_with s ''true'' \<or> starts_with s ''null'' then Some (drop 4 s)
      else if starts_with s ''false'' then Some (drop 5 s)
      else if deref s = DQUOTE then p_is_valid_string s
      else p_is_valid_number s)"
  by pat_completeness auto

subsection \<open>Every validator returns a later cursor\<close>

lemma p_eat_whitespace_length: "p_eat_whitespace s = Some r \<Longrightarrow> length r \<le> length s"
  by (induction s) (auto split: if_splits)

lemma p_eat_whitespace_nonempty: "p_eat_whitespace s = Some r \<Longrightarrow> r \<noteq> []"
  by (induction s) (auto split: if_splits)

lemma p_eat_whitespace_tl_length:
  "p_eat_whitespace s = Some s1 \<Longrightarrow> length (tl s1) < length s"
  using p_eat_whitespace_length[of s s1] p_eat_whitespace_nonempty[of s s1]
  by (cases s1) auto

lemma string_loop_cases:
  assumes "string_loop s = Some r"
  shows "deref s \<noteq> NUL \<and>
    ((deref s = DQUOTE \<and> r = tl s \<and> deref (tl s) \<noteq> NUL)
     \<or> (deref s \<noteq> DQUOTE \<and> deref s = BACKSLASH \<and> idx s 1 \<noteq> NUL
          \<and> is_simple_escape (idx s 1) \<and> string_loop (drop 2 s) = Some r)
     \<or> (deref s \<noteq> DQUOTE \<and> deref s = BACKSLASH \<and> idx s 1 \<noteq> NUL
          \<and> \<not> is_simple_escape (idx s 1) \<and> idx s 1 = CHR ''u''
          \<and> \<not> (idx s 2 = NUL \<or> idx s 3 = NUL \<or> idx s 4 = NUL \<or> idx s 5 = NUL)
          \<and> (is_hex (idx s 2) \<and> is_hex (idx s 3) \<and> is_hex (idx s 4) \<and> is_hex (idx s 5))
          \<and> string_loop (drop 6 s) = Some r)
     \<or> (deref s \<noteq> DQUOTE \<and> deref s \<noteq> BACKSLASH \<and> string_loop (tl s) = Some r))"
  using assms by (subst (asm) string_loop.simps) (simp split: if_splits)

lemma string_loop_length: "string_loop s = Some r \<Longrightarrow> length r < length s"
proof (induction s arbitrary: r rule: string_loop.induct)
  case (1 s)
  note c = string_loop_cases[OF "1.prems"]
  then have ne: "s \<noteq> []" by (auto simp: deref_def)
  from c consider
      (quote) "r = tl s"
    | (simple) "length r < length (drop 2 s)"
    | (uni) "length r < length (drop 6 s)"
    | (plain) "length r < length (tl s)"
    using "1.IH"(1)[of r] "1.IH"(2)[of r] "1.IH"(3)[of r] by blast
  then show ?case using ne by cases auto
qed

lemma p_is_valid_string_length: "p_is_valid_string s = Some r \<Longrightarrow> length r < length s"
  using string_loop_length[of "tl s" r]
  by (cases s) (auto simp: p_is_valid_string_def split: if_splits)

lemma eat_digits_length: "length (eat_digits s) \<le> length s"
  by (induction s) auto

lemma number_exponent_length: "number_exponent s = Some r \<Longrightarrow> length r \<le> length s"
  using eat_digits_length[of "tl s"] eat_digits_length[of "tl (tl s)"]
  by (cases s) (auto simp: number_exponent_def Let_def split: if_splits)

lemma number_fraction_length: "number_fraction s = Some r \<Longrightarrow> length r \<le> length s"
  using eat_digits_length[of s] number_exponent_length[of s r]
    number_exponent_length[of "eat_digits s" r]
  by (auto simp: number_fraction_def Let_def split: if_splits)

lemma p_is_valid_number_length: "p_is_valid_number s = Some r \<Longrightarrow> length r \<le> length s"
  using eat_digits_length[of s] eat_digits_length[of "tl s"]
    number_fraction_length[of "eat_digits s" r] number_fraction_length[of "eat_digits (tl s)" r]
  by (cases s) (auto simp: p_is_valid_number_def Let_def split: if_splits)

lemma member_key_length:
  assumes "member_key s = Some r"
  shows "length r < length s"
proof -
  from assms obtain s1 s2 where
    a: "p_is_valid_string s = Some s1" "p_eat_whitespace s1 = Some s2"
       "p_eat_whitespace (tl s2) = Some r"
    by (auto simp: member_key_def split: option.splits if_splits)
  have "length r \<le> length (tl s2)" using a(3) by (rule p_eat_whitespace_length)
  moreover have "length (tl s2) < length s1" using a(2) by (rule p_eat_whitespace_tl_length)
  moreover have "length s1 < length s" using a(1) by (rule p_is_valid_string_length)
  ultimately show ?thesis by simp
qed

lemma after_value_Continue_length:
  assumes "after_value c s = Continue r"
  shows "length r < length s"
proof -
  from assms obtain s1 where
    a: "p_eat_whitespace s = Some s1" "p_eat_whitespace (tl s1) = Some r"
    by (auto simp: after_value_def split: option.splits if_splits)
  have "length r \<le> length (tl s1)" using a(2) by (rule p_eat_whitespace_length)
  moreover have "length (tl s1) < length s" using a(1) by (rule p_eat_whitespace_tl_length)
  ultimately show ?thesis by simp
qed

lemma after_value_Return_length:
  assumes "after_value c s = Return (Some r)"
  shows "length r < length s"
proof -
  from assms obtain s1 where a: "p_eat_whitespace s = Some s1" "r = tl s1"
    by (auto simp: after_value_def split: option.splits if_splits)
  then show ?thesis using p_eat_whitespace_tl_length by simp
qed

lemma valid_json_length_dom:
  "p_is_valid_json_object_loop_array_loop_valid_value_dom (Inl (Inl (s, t))) \<Longrightarrow>
     (\<forall>r. p_is_valid_json s t = Some r \<longrightarrow> length r < length s)"
  "p_is_valid_json_object_loop_array_loop_valid_value_dom (Inl (Inr s1)) \<Longrightarrow>
     (\<forall>r. object_loop s1 = Some r \<longrightarrow> length r < length s1)"
  "p_is_valid_json_object_loop_array_loop_valid_value_dom (Inr (Inl s2)) \<Longrightarrow>
     (\<forall>r. array_loop s2 = Some r \<longrightarrow> length r < length s2)"
  "p_is_valid_json_object_loop_array_loop_valid_value_dom (Inr (Inr s3)) \<Longrightarrow>
     (\<forall>r. valid_value s3 = Some r \<longrightarrow> length r \<le> length s3)"
proof (induction rule: p_is_valid_json_object_loop_array_loop_valid_value.pinduct)
  case (1 s t)
  show ?case
  proof (intro allI impI)
    fix r assume r: "p_is_valid_json s t = Some r"
    from r obtain s1 where s1: "p_eat_whitespace (tl s) = Some s1"
      and l: "(t = JSON_OBJECT \<and> deref s = CHR ''{'' \<and> object_loop s1 = Some r)
            \<or> (t \<noteq> JSON_OBJECT \<and> t = JSON_ARRAY \<and> deref s = CHR ''['' \<and> array_loop s1 = Some r)"
      by (subst (asm) p_is_valid_json.psimps[OF "1.hyps"])
         (auto split: if_splits option.splits)
    have ne: "s \<noteq> []" using l by (auto simp: deref_def)
    have "length r < length s1" using l s1 "1.IH" by auto
    moreover have "length s1 \<le> length (tl s)" using s1 by (rule p_eat_whitespace_length)
    ultimately show "length r < length s" using ne by simp
  qed
next
  case (2 s)
  show ?case
  proof (intro allI impI)
    fix r assume r: "object_loop s = Some r"
    note ps = r[unfolded object_loop.psimps[OF "2.hyps"]]
    show "length r < length s"
    proof (cases "deref s = CHR ''}''")
      case True
      then have "r = tl s" "s \<noteq> []" using ps by (auto simp: deref_def)
      then show ?thesis by simp
    next
      case False
      with ps obtain s3 s4 where
        a: "deref s = DQUOTE" "member_key s = Some s3" "valid_value s3 = Some s4"
        and b: "(after_value (CHR ''}'') s4 = Return (Some r))
              \<or> (\<exists>s6. after_value (CHR ''}'') s4 = Continue s6 \<and> object_loop s6 = Some r)"
        by (auto split: if_splits option.splits step.splits)
      have l3: "length s3 < length s" using a(2) by (rule member_key_length)
      have l4: "length s4 \<le> length s3" using "2.IH"(1)[OF False a(1) a(2)] a(3) by simp
      from b show ?thesis
      proof
        assume "after_value (CHR ''}'') s4 = Return (Some r)"
        then have "length r < length s4" by (rule after_value_Return_length)
        then show ?thesis using l3 l4 by simp
      next
        assume "\<exists>s6. after_value (CHR ''}'') s4 = Continue s6 \<and> object_loop s6 = Some r"
        then obtain s6 where
          c: "after_value (CHR ''}'') s4 = Continue s6" "object_loop s6 = Some r"
          by blast
        have "length s6 < length s4" using c(1) by (rule after_value_Continue_length)
        moreover have "length r < length s6"
          using "2.IH"(2)[OF False a(1) a(2) a(3) c(1)] c(2) by simp
        ultimately show ?thesis using l3 l4 by simp
      qed
    qed
  qed
next
  case (3 s)
  show ?case
  proof (intro allI impI)
    fix r assume r: "array_loop s = Some r"
    note ps = r[unfolded array_loop.psimps[OF "3.hyps"]]
    show "length r < length s"
    proof (cases "deref s = CHR '']''")
      case True
      then have "r = tl s" "s \<noteq> []" using ps by (auto simp: deref_def)
      then show ?thesis by simp
    next
      case False
      with ps obtain s1 where
        a: "valid_value s = Some s1"
        and b: "(after_value (CHR '']'') s1 = Return (Some r))
              \<or> (\<exists>s3. after_value (CHR '']'') s1 = Continue s3 \<and> array_loop s3 = Some r)"
        by (auto split: if_splits option.splits step.splits)
      have l1: "length s1 \<le> length s" using "3.IH"(1)[OF False] a by simp
      from b show ?thesis
      proof
        assume "after_value (CHR '']'') s1 = Return (Some r)"
        then have "length r < length s1" by (rule after_value_Return_length)
        then show ?thesis using l1 by simp
      next
        assume "\<exists>s3. after_value (CHR '']'') s1 = Continue s3 \<and> array_loop s3 = Some r"
        then obtain s3 where
          c: "after_value (CHR '']'') s1 = Continue s3" "array_loop s3 = Some r"
          by blast
        have "length s3 < length s1" using c(1) by (rule after_value_Continue_length)
        moreover have "length r < length s3"
          using "3.IH"(2)[OF False a c(1)] c(2) by simp
        ultimately show ?thesis using l1 by simp
      qed
    qed
  qed
next
  case (4 s)
  show ?case
  proof (intro allI impI)
    fix r assume r: "valid_value s = Some r"
    note ps = r[unfolded valid_value.psimps[OF "4.hyps"]]
    consider (obj) "deref s = CHR ''{''" "p_is_valid_json s JSON_OBJECT = Some r"
      | (arr) "deref s \<noteq> CHR ''{''" "deref s = CHR ''[''" "p_is_valid_json s JSON_ARRAY = Some r"
      | (lit) "r = drop 4 s \<or> r = drop 5 s"
      | (str) "p_is_valid_string s = Some r"
      | (num) "p_is_valid_number s = Some r"
      using ps by (auto split: if_splits)
    then show "length r \<le> length s"
    proof cases
      case obj then show ?thesis using "4.IH"(1) by fastforce
    next
      case arr then show ?thesis using "4.IH"(2) by fastforce
    next
      case lit then show ?thesis by auto
    next
      case str then show ?thesis using p_is_valid_string_length by fastforce
    next
      case num then show ?thesis using p_is_valid_number_length by fastforce
    qed
  qed
qed

lemma valid_json_total: "All p_is_valid_json_object_loop_array_loop_valid_value_dom"
proof (rule "p_is_valid_json_object_loop_array_loop_valid_value.termination"
    [of "measure (\<lambda>x. case x of
          Inl (Inl (s, t)) \<Rightarrow> 3 * length s
        | Inl (Inr s) \<Rightarrow> 3 * length s + 2
        | Inr (Inl s) \<Rightarrow> 3 * length s + 2
        | Inr (Inr s) \<Rightarrow> 3 * length s + 1)"], goal_cases)
  case 1 show ?case by simp
next
  case (2 s t s1)
  then show ?case using p_eat_whitespace_length[of "tl s" s1]
    by (cases s) (auto simp: deref_def)
next
  case (3 s t s1)
  then show ?case using p_eat_whitespace_length[of "tl s" s1]
    by (cases s) (auto simp: deref_def)
next
  case (4 s s3)
  then show ?case using member_key_length[of s s3] by simp
next
  case (5 s s3 s4 s6)
  then show ?case
    using member_key_length[of s s3] valid_json_length_dom(4)[of s3]
      after_value_Continue_length[of "CHR ''}''" s4 s6]
    by auto
next
  case (6 s)
  then show ?case by simp
next
  case (7 s s1 s3)
  then show ?case
    using valid_json_length_dom(4)[of s] after_value_Continue_length[of "CHR '']''" s1 s3]
    by auto
next
  case (8 s)
  then show ?case by simp
next
  case (9 s)
  then show ?case by simp
qed

termination p_is_valid_json
  by (rule valid_json_total)

lemma p_is_valid_json_length: "p_is_valid_json s t = Some r \<Longrightarrow> length r < length s"
  using valid_json_length_dom(1)[of s t] valid_json_total by auto

declare p_is_valid_json.simps [simp del] object_loop.simps [simp del]
  array_loop.simps [simp del] valid_value.simps [simp del]

lemmas validator_defs =
  p_is_valid_number_def number_fraction_def number_exponent_def is_number_end_def
  deref_def idx_def is_digit_def is_hex_def p_is_whitespace_def p_is_valid_string_def
  is_simple_escape_def starts_with_def member_key_def after_value_def

section \<open>Faults\<close>

text \<open>
  Three ways in which the C program does not return a value are values of the model:
  \<open>OutOfBounds\<close> is a read or write outside the object a pointer points into (undefined
  behaviour in C; in the model, an index beyond a buffer or an address that is not a node),
  \<open>Unrepresentable\<close> is the conversion to \<^verbatim>\<open>int64_t\<close> of a \<^verbatim>\<open>double\<close> whose integral part is not
  a value of \<^verbatim>\<open>int64_t\<close> (undefined behaviour in C as well), and \<open>Aborted\<close> is a call of
  \<^verbatim>\<open>abort()\<close>.  Allocation always succeeds in the model, so the \<^verbatim>\<open>abort()\<close> calls that follow a
  failed \<^verbatim>\<open>calloc\<close> or \<^verbatim>\<open>realloc\<close> are left out.
\<close>

datatype fault = OutOfBounds | Unrepresentable | Aborted

definition peek :: "string \<Rightarrow> nat \<Rightarrow> fault + char" where
  "peek b i = (if i < length b then Inr (b ! i) else Inl OutOfBounds)"

section \<open>The escape decoder: \<^verbatim>\<open>p_unescape_string\<close>\<close>

text \<open>
  The decoder rewrites a buffer in place, so here a buffer is the list of all its bytes, the
  terminator included, and \<^verbatim>\<open>it\<close>, \<^verbatim>\<open>shift\<close> and \<^verbatim>\<open>shift_end\<close> are indices into it.  The C string
  a buffer holds is \<open>c_str\<close>: its bytes before the first zero byte.
\<close>

definition c_str :: "string \<Rightarrow> string" where
  "c_str b = takeWhile (\<lambda>c. c \<noteq> NUL) b"

text \<open>
  \<^verbatim>\<open>strtol(hex, NULL, 16)\<close> of the C library, on a string too short to overflow: white space,
  an optional sign, an optional \<^verbatim>\<open>0x\<close> before a hexadecimal digit, then hexadecimal digits up to
  the first character that is none.
\<close>

definition hex_value :: "char \<Rightarrow> int" where
  "hex_value c =
     (if CHR ''0'' \<le> c \<and> c \<le> CHR ''9'' then of_char c - 48
      else if CHR ''a'' \<le> c \<and> c \<le> CHR ''f'' then of_char c - 87
      else of_char c - 55)"

fun hex_digits :: "int \<Rightarrow> string \<Rightarrow> int" where
  "hex_digits acc [] = acc"
| "hex_digits acc (c # s) = (if is_hex c then hex_digits (16 * acc + hex_value c) s else acc)"

definition is_space :: "char \<Rightarrow> bool" where
  "is_space c =
     (c = CHR '' '' \<or> c = CHR 0x09 \<or> c = CHR 0x0A \<or> c = CHR 0x0B \<or> c = CHR 0x0C
      \<or> c = CHR 0x0D)"

definition strtol16 :: "string \<Rightarrow> int" where
  "strtol16 s =
     (let s1 = dropWhile is_space (c_str s);
          s2 = (if deref s1 = CHR ''-'' \<or> deref s1 = CHR ''+'' then tl s1 else s1);
          s3 = (if deref s2 = CHR ''0'' \<and> (idx s2 1 = CHR ''x'' \<or> idx s2 1 = CHR ''X'')
                   \<and> is_hex (idx s2 2) then drop 2 s2 else s2);
          v = hex_digits 0 s3
      in if deref s1 = CHR ''-'' then - v else v)"

text \<open>
  The loop that closes the gap after a \<^verbatim>\<open>\u\<close> escape:
  \<^verbatim>\<open>while(*shift != '\0') { *shift_end = *shift; shift++; shift_end++; } *shift_end = '\0';\<close>
\<close>

function shift_down :: "string \<Rightarrow> nat \<Rightarrow> nat \<Rightarrow> fault + string" where
  "shift_down b shift shift_end =
     (if length b \<le> shift \<or> length b \<le> shift_end then Inl OutOfBounds
      else if b ! shift = NUL then Inr (b[shift_end := NUL])
      else shift_down (b[shift_end := b ! shift]) (Suc shift) (Suc shift_end))"
  by pat_completeness auto
termination
  by (relation "measure (\<lambda>(b, shift, shift_end). length b - shift)") auto

declare shift_down.simps [simp del]

text \<open>
  The loop that closes the gap after a simple escape:
  \<^verbatim>\<open>while(*shift != '\0') { *shift = *(shift+1); shift++; }\<close>
\<close>

function shift_one :: "string \<Rightarrow> nat \<Rightarrow> fault + string" where
  "shift_one b shift =
     (if length b \<le> shift then Inl OutOfBounds
      else if b ! shift = NUL then Inr b
      else if length b \<le> Suc shift then Inl OutOfBounds
      else shift_one (b[shift := b ! Suc shift]) (Suc shift))"
  by pat_completeness auto
termination
  by (relation "measure (\<lambda>(b, shift). length b - shift)") auto

declare shift_one.simps [simp del]

lemma shift_down_length: "shift_down b i j = Inr b' \<Longrightarrow> length b' = length b"
proof (induction b i j rule: shift_down.induct)
  case (1 b shift shift_end)
  then show ?case
    by (subst (asm) (2) shift_down.simps) (auto split: if_splits)
qed

lemma shift_one_length: "shift_one b i = Inr b' \<Longrightarrow> length b' = length b"
proof (induction b i rule: shift_one.induct)
  case (1 b shift)
  then show ?case
    by (subst (asm) (2) shift_one.simps) (auto split: if_splits)
qed

text \<open>
  The test \<^verbatim>\<open>it[1] == 'u' && it[2] != '\0' && it[3] != '\0' && it[4] != '\0' && it[5] != '\0'\<close>,
  read left to right and stopping at the first conjunct that fails.
\<close>

definition is_unicode_escape :: "string \<Rightarrow> nat \<Rightarrow> fault + bool" where
  "is_unicode_escape b it =
     (case peek b (it + 1) of Inl f \<Rightarrow> Inl f | Inr c1 \<Rightarrow>
       if c1 \<noteq> CHR ''u'' then Inr False else
      (case peek b (it + 2) of Inl f \<Rightarrow> Inl f | Inr c2 \<Rightarrow>
       if c2 = NUL then Inr False else
      (case peek b (it + 3) of Inl f \<Rightarrow> Inl f | Inr c3 \<Rightarrow>
       if c3 = NUL then Inr False else
      (case peek b (it + 4) of Inl f \<Rightarrow> Inl f | Inr c4 \<Rightarrow>
       if c4 = NUL then Inr False else
      (case peek b (it + 5) of Inl f \<Rightarrow> Inl f | Inr c5 \<Rightarrow>
       Inr (c5 \<noteq> NUL))))))"

text \<open>The \<^verbatim>\<open>switch(it[1])\<close>: the byte written over the backslash (the backslash stays when no
  case matches).\<close>

definition simple_escape :: "char \<Rightarrow> char" where
  "simple_escape c =
     (if c = BACKSLASH then BACKSLASH
      else if c = DQUOTE then DQUOTE
      else if c = CHR ''/'' then CHR ''/''
      else if c = CHR ''b'' then CHR 0x08
      else if c = CHR ''f'' then CHR 0x0C
      else if c = CHR ''n'' then CHR 0x0A
      else if c = CHR ''r'' then CHR 0x0D
      else if c = CHR ''t'' then CHR 0x09
      else BACKSLASH)"

text \<open>
  The three branches of a \<^verbatim>\<open>\u\<close> escape.  Each returns the buffer and the cursor with which
  the loop continues.  Assigning an \<^verbatim>\<open>int\<close> to a \<^verbatim>\<open>char\<close> keeps its low eight bits (\<open>char_of\<close>).
  The \<^verbatim>\<open>printf\<close> of the source writes to the standard output only and is left out.
\<close>

definition unescape_unicode :: "string \<Rightarrow> nat \<Rightarrow> fault + string \<times> nat" where
  "unescape_unicode b it =
     (let code = strtol16 [b ! (it + 2), b ! (it + 3), b ! (it + 4), b ! (it + 5)] in
      if code \<le> 0x7F then
        (case shift_down (b[it := char_of code]) (it + 1 + 5) (it + 1) of
           Inl f \<Rightarrow> Inl f | Inr b' \<Rightarrow> Inr (b', it + 1))
      else if code \<le> 0x7FF then
        (case shift_down
                (b[it := char_of (0xC0 OR drop_bit 6 code),
                   it + 1 := char_of (0x80 OR (code AND 0x3F))])
                (it + 2 + 4) (it + 2) of
           Inl f \<Rightarrow> Inl f | Inr b' \<Rightarrow> Inr (b', it + 2))
      else
        (case shift_down
                (b[it := char_of (0xE0 OR drop_bit 12 code),
                   it + 1 := char_of (0x80 OR (drop_bit 6 code AND 0x3F)),
                   it + 2 := char_of (0x80 OR (code AND 0x3F))])
                (it + 3 + 3) (it + 3) of
           Inl f \<Rightarrow> Inl f | Inr b' \<Rightarrow> Inr (b', it + 3)))"

definition unescape_simple :: "string \<Rightarrow> nat \<Rightarrow> fault + string \<times> nat" where
  "unescape_simple b it =
     (case shift_one (b[it := simple_escape (b ! (it + 1))]) (it + 1) of
        Inl f \<Rightarrow> Inl f | Inr b' \<Rightarrow> Inr (b', it + 1))"

text \<open>One iteration of the \<^verbatim>\<open>while(*it != '\0')\<close> loop, entered with \<^verbatim>\<open>*it\<close> not the terminator.\<close>

definition unescape_step :: "string \<Rightarrow> nat \<Rightarrow> fault + string \<times> nat" where
  "unescape_step b it =
     (if b ! it = BACKSLASH then
        (case is_unicode_escape b it of Inl f \<Rightarrow> Inl f
         | Inr True \<Rightarrow> unescape_unicode b it
         | Inr False \<Rightarrow> unescape_simple b it)
      else Inr (b, it + 1))"

lemma unescape_step_progress:
  "unescape_step b it = Inr (b', it') \<Longrightarrow> length b' = length b \<and> it < it'"
  by (auto simp: unescape_step_def unescape_unicode_def unescape_simple_def Let_def
      split: if_splits sum.splits bool.splits dest!: shift_down_length shift_one_length)

function unescape_loop :: "string \<Rightarrow> nat \<Rightarrow> fault + string" where
  "unescape_loop b it =
     (if length b \<le> it then Inl OutOfBounds
      else if b ! it = NUL then Inr b
      else (case unescape_step b it of Inl f \<Rightarrow> Inl f
            | Inr (b', it') \<Rightarrow> unescape_loop b' it'))"
  by pat_completeness auto
termination
  by (relation "measure (\<lambda>(b, it). length b - it)")
     (auto dest!: unescape_step_progress)

declare unescape_loop.simps [simp del]

definition p_unescape_string :: "string \<Rightarrow> fault + string" where
  "p_unescape_string b = unescape_loop b 0"

section \<open>Nodes and the document\<close>

text \<open>
  A tree lives in a table of nodes; a \<^verbatim>\<open>json_t*\<close> is an index into the table, \<^verbatim>\<open>NULL\<close> is \<open>None\<close>,
  and \<^verbatim>\<open>calloc\<close> of a node appends to the table.  \<open>backing_data\<close> is a cursor into the
  document text.  \<open>path_name\<close> and \<open>value_string\<close> hold the C string of their buffer.
  \<open>children\<close> is the \<^verbatim>\<open>realloc\<close>ed array of child pointers.  The field \<^verbatim>\<open>value_double\<close> is a
  floating-point number and is left out of the record; \<open>value_int\<close> is the 64-bit integer
  that \<^verbatim>\<open>int64_t i = round(d)\<close> stores.
\<close>

record json =
  root :: nat
  parent :: "nat option"
  node_type :: json_node_type_t
  backing_data :: string
  path_name :: "string option"
  children_count :: int
  children :: "nat list option"
  value_string :: "string option"
  value_int :: int

type_synonym heap = "json list"

definition p_build_root_json_node :: "heap \<Rightarrow> string \<Rightarrow> json_node_type_t \<Rightarrow> heap \<times> nat" where
  "p_build_root_json_node h data type =
     (h @ [\<lparr>root = length h, parent = None, node_type = type, backing_data = data,
            path_name = None, children_count = - 1, children = None,
            value_string = None, value_int = 0\<rparr>], length h)"

definition p_build_child_json_node ::
  "heap \<Rightarrow> nat \<Rightarrow> string \<Rightarrow> string option \<Rightarrow> json_node_type_t \<Rightarrow> heap \<times> nat" where
  "p_build_child_json_node h parent_ptr data name type =
     (h @ [\<lparr>root = root (h ! parent_ptr), parent = Some parent_ptr, node_type = type,
            backing_data = data, path_name = name, children_count = - 1, children = None,
            value_string = None, value_int = 0\<rparr>], length h)"

subsection \<open>\<^verbatim>\<open>json_parse\<close>\<close>

text \<open>
  The argument of \<^verbatim>\<open>json_parse\<close> is the caller's array \<open>mem\<close>, all of its bytes, and the declared
  length.  The read of \<^verbatim>\<open>s[length]\<close> is the only one that can leave the array; once it
  succeeded, every later index is below \<open>length\<close>.  \<open>find_nul\<close> is the backward scan
  \<^verbatim>\<open>while(it != s && *it != '\0') it--;\<close>.  \<open>trim_front\<close> and \<open>trim_back\<close> are the two loops of
  \<^verbatim>\<open>p_trim_whitespace\<close>, which is entered with a length of at least one.
\<close>

function find_nul :: "string \<Rightarrow> nat \<Rightarrow> nat" where
  "find_nul mem it = (if it \<noteq> 0 \<and> mem ! it \<noteq> NUL then find_nul mem (it - 1) else it)"
  by pat_completeness auto
termination
  by (relation "measure (\<lambda>(mem, it). it)") auto

declare find_nul.simps [simp del]

function trim_front :: "string \<Rightarrow> nat \<Rightarrow> nat \<Rightarrow> (nat \<times> nat) option" where
  "trim_front mem it len =
     (if p_is_whitespace (mem ! it) then
        (if len - 1 = 0 then None else trim_front mem (it + 1) (len - 1))
      else Some (it, len))"
  by pat_completeness auto
termination
  by (relation "measure (\<lambda>(mem, it, len). len)") auto

declare trim_front.simps [simp del]

function trim_back :: "string \<Rightarrow> nat \<Rightarrow> nat \<Rightarrow> nat option" where
  "trim_back mem rit len =
     (if p_is_whitespace (mem ! rit) then
        (if len - 1 = 0 then None else trim_back mem (rit - 1) (len - 1))
      else Some len)"
  by pat_completeness auto
termination
  by (relation "measure (\<lambda>(mem, rit, len). len)") auto

declare trim_back.simps [simp del]

definition p_trim_whitespace :: "string \<Rightarrow> nat \<Rightarrow> string option" where
  "p_trim_whitespace mem len =
     (case trim_front mem 0 len of None \<Rightarrow> None | Some (it, len1) \<Rightarrow>
       (case trim_back mem (len - 1) len1 of None \<Rightarrow> None | Some len2 \<Rightarrow>
          Some (take len2 (drop it mem))))"

definition json_parse :: "string \<Rightarrow> nat \<Rightarrow> fault + (heap \<times> nat) option" where
  "json_parse mem len =
     (if len = 0 then Inr None
      else case peek mem len of Inl f \<Rightarrow> Inl f | Inr c \<Rightarrow>
        if c \<noteq> NUL then Inr None
        else if find_nul mem (len - 1) \<noteq> 0 then Inr None
        else (case p_trim_whitespace mem len of None \<Rightarrow> Inr None | Some data \<Rightarrow>
          if deref data \<noteq> CHR ''{'' \<and> deref data \<noteq> CHR ''['' then Inr None
          else
            (let type = (if deref data = CHR ''['' then JSON_ARRAY else JSON_OBJECT) in
             if p_is_valid_json data type = None then Inr None
             else Inr (Some (p_build_root_json_node [] data type)))))"

subsection \<open>Lazy loading: \<^verbatim>\<open>p_lazy_load\<close>\<close>

text \<open>
  The conversion \<^verbatim>\<open>int64_t i = round(atof(number))\<close> on the text of a number literal as
  \<^verbatim>\<open>p_is_valid_number\<close> accepts it: an optional \<^verbatim>\<open>'-'\<close>, decimal digits, and an exponent part
  that counts only when it has a digit.  Without a digit in the mantissa nothing is converted
  and the value is 0.

  \<^verbatim>\<open>atof\<close> returns the \<^verbatim>\<open>double\<close> nearest to the decimal value (IEEE 754 binary64, round to
  nearest, ties to even, as the C library's \<^verbatim>\<open>strtod\<close> converts).  The decimal value is the
  fraction \<open>num / den\<close> of two integers, and a finite \<^verbatim>\<open>double\<close> is a pair \<open>(m, p)\<close> that
  stands for \<open>m * 2 ^ p\<close>, with \<open>m\<close> at most \<open>2 ^ 53\<close>.  The integer that \<^verbatim>\<open>round\<close> returns
  is converted to \<^verbatim>\<open>int64_t\<close> by the initialisation of \<^verbatim>\<open>i\<close>.
\<close>

fun decimal_digits :: "nat \<Rightarrow> string \<Rightarrow> nat" where
  "decimal_digits acc [] = acc"
| "decimal_digits acc (c # s) =
     (if is_digit c then decimal_digits (10 * acc + (of_char c - 48)) s else acc)"

text \<open>The same value as an integer, for the arithmetic of the conversion.\<close>

fun decimal_value :: "int \<Rightarrow> string \<Rightarrow> int" where
  "decimal_value acc [] = acc"
| "decimal_value acc (c # s) =
     (if is_digit c then decimal_value (10 * acc + (of_char c - 48)) s else acc)"

text \<open>The number of binary digits of a positive \<open>n\<close>.\<close>

function bit_length :: "int \<Rightarrow> nat" where
  "bit_length n = (if n \<le> 0 then 0 else Suc (bit_length (n div 2)))"
  by pat_completeness auto
termination
  by (relation "measure nat") auto

declare bit_length.simps [simp del]

text \<open>The fraction \<open>num / den / 2 ^ p\<close>, for an integer \<open>p\<close> of either sign.\<close>

definition scaled :: "int \<Rightarrow> int \<Rightarrow> int \<Rightarrow> int \<times> int" where
  "scaled num den p =
     (if 0 \<le> p then (num, den * 2 ^ nat p) else (num * 2 ^ nat (- p), den))"

text \<open>The binary exponent of a positive fraction: the \<open>e\<close> with \<open>2 ^ e \<le> num / den < 2 ^ (e + 1)\<close>.\<close>

definition binade :: "int \<Rightarrow> int \<Rightarrow> int" where
  "binade num den =
     (let e = int (bit_length num) - int (bit_length den);
          ab = scaled num den e
      in if snd ab \<le> fst ab then e else e - 1)"

text \<open>The integer nearest to the fraction \<open>a / b\<close>, the even one of the two when it is halfway.\<close>

definition round_half_even :: "int \<times> int \<Rightarrow> int" where
  "round_half_even ab =
     (let q = fst ab div snd ab; r = fst ab mod snd ab
      in if 2 * r < snd ab then q
         else if snd ab < 2 * r then q + 1
         else if even q then q else q + 1)"

text \<open>
  The nearest \<^verbatim>\<open>double\<close> of a fraction that is not negative: 53 significant bits, the unit in the
  last place not below \<open>2 ^ - 1074\<close> (subnormal numbers), and \<open>None\<close> for \<^verbatim>\<open>HUGE_VAL\<close> when the
  rounded value reaches \<open>2 ^ 1024\<close>.
\<close>

definition nearest_double :: "int \<Rightarrow> int \<Rightarrow> (int \<times> int) option" where
  "nearest_double num den =
     (if num = 0 then Some (0, 0)
      else
        (let p = max (binade num den) (- 1022) - 52;
             m = round_half_even (scaled num den p)
         in if p < 0 then Some (m, p)
            else if 2 ^ 1024 \<le> m * 2 ^ nat p then None
            else Some (m, p)))"

text \<open>\<^verbatim>\<open>round\<close> of a finite \<^verbatim>\<open>double\<close> that is not negative: halves go away from zero.\<close>

definition c_round :: "int \<times> int \<Rightarrow> int" where
  "c_round d =
     (if 0 \<le> snd d then fst d * 2 ^ nat (snd d)
      else (2 * fst d + 2 ^ nat (- snd d)) div (2 * 2 ^ nat (- snd d)))"

text \<open>
  The conversion of the rounded \<^verbatim>\<open>double\<close> to \<^verbatim>\<open>int64_t\<close>, with the sign of the literal: \<open>None\<close>
  when the value is infinite or not a value of \<^verbatim>\<open>int64_t\<close>.
\<close>

definition to_int64 :: "bool \<Rightarrow> (int \<times> int) option \<Rightarrow> int option" where
  "to_int64 negative d =
     (case d of None \<Rightarrow> None
      | Some x \<Rightarrow>
          (let v = c_round x in
           if negative then (if v \<le> 2 ^ 63 then Some (- v) else None)
           else (if v < 2 ^ 63 then Some v else None)))"

definition atof_round :: "string \<Rightarrow> int option" where
  "atof_round text =
     (let s = (if deref text = CHR ''-'' then tl text else text);
          m = decimal_value 0 s;
          s1 = eat_digits s;
          s2 = (if idx s1 1 = CHR ''-'' \<or> idx s1 1 = CHR ''+'' then drop 2 s1 else drop 1 s1);
          has_exp = ((deref s1 = CHR ''e'' \<or> deref s1 = CHR ''E'') \<and> is_digit (deref s2));
          e = nat (decimal_value 0 s2);
          d = (if s1 = s then Some (0, 0)
               else if has_exp then
                 (if idx s1 1 = CHR ''-'' then nearest_double m (10 ^ e)
                  else nearest_double (m * 10 ^ e) 1)
               else nearest_double m 1)
      in to_int64 (deref text = CHR ''-'') d)"

text \<open>
  The dispatch on the first character of a child's value (lines 564 to 585 and 671 to 692): the
  kind of the child and the cursor after its value.
\<close>

definition child_value :: "string \<Rightarrow> json_node_type_t \<times> string option" where
  "child_value s =
     (if deref s = CHR ''{'' then (JSON_OBJECT, p_is_valid_json s JSON_OBJECT)
      else if deref s = CHR ''['' then (JSON_ARRAY, p_is_valid_json s JSON_ARRAY)
      else if starts_with s ''true'' then (JSON_TRUE, Some (drop 4 s))
      else if starts_with s ''null'' then (JSON_NULL, Some (drop 4 s))
      else if starts_with s ''false'' then (JSON_FALSE, Some (drop 5 s))
      else if deref s = DQUOTE then (JSON_STRING, p_is_valid_string s)
      else (JSON_NUMBER, p_is_valid_number s))"

text \<open>
  \<^verbatim>\<open>j->children_count++\<close>, the \<^verbatim>\<open>realloc\<close> of \<^verbatim>\<open>j->children\<close> and the store of the new child in its
  last slot.
\<close>

definition add_child ::
  "heap \<Rightarrow> nat \<Rightarrow> string \<Rightarrow> string option \<Rightarrow> json_node_type_t \<Rightarrow> heap" where
  "add_child h j data name type =
     (let (h1, c) = p_build_child_json_node h j data name type;
          n = h1 ! j
      in h1[j := n\<lparr>children_count := children_count n + 1,
                    children := Some ((case children n of None \<Rightarrow> [] | Some cs \<Rightarrow> cs) @ [c])\<rparr>])"

text \<open>
  What follows a child's value in both loops (lines 593 to 624 and 700 to 731): whitespace, then
  the closing character (step over it), or a comma, whitespace and a character that is not the
  closing one; with any other character the loop goes round with the cursor where it is.
\<close>

definition load_tail :: "char \<Rightarrow> heap \<Rightarrow> string \<Rightarrow> fault + heap \<times> string" where
  "load_tail close h s =
     (case p_eat_whitespace s of None \<Rightarrow> Inl Aborted | Some s1 \<Rightarrow>
       (if deref s1 = close then Inr (h, tl s1)
        else if deref s1 = CHR '','' then
          (case p_eat_whitespace (tl s1) of None \<Rightarrow> Inl Aborted | Some s2 \<Rightarrow>
            (if deref s2 = close then Inl Aborted else Inr (h, s2)))
        else Inr (h, s1)))"

text \<open>
  One object member (lines 521 to 624).  The key is the text between the quotes, copied into a
  fresh zero-terminated buffer and decoded in place.  The colon is expected directly after the
  closing quote of the key.
\<close>

definition load_member :: "heap \<Rightarrow> nat \<Rightarrow> string \<Rightarrow> fault + heap \<times> string" where
  "load_member h j start =
     (case p_is_valid_string start of None \<Rightarrow> Inl Aborted | Some s1 \<Rightarrow>
       (case p_unescape_string (take (length start - length s1 - 2) (tl start) @ [NUL]) of
          Inl f \<Rightarrow> Inl f
        | Inr buf \<Rightarrow>
          (if deref s1 \<noteq> CHR '':'' then Inl Aborted
           else (case p_eat_whitespace (tl s1) of None \<Rightarrow> Inl Aborted | Some s2 \<Rightarrow>
             (case child_value s2 of
                (type, None) \<Rightarrow> Inl Aborted
              | (type, Some s3) \<Rightarrow>
                  load_tail (CHR ''}'') (add_child h j s2 (Some (c_str buf)) type) s3)))))"

text \<open>One array element (lines 655 to 731).\<close>

definition load_element :: "heap \<Rightarrow> nat \<Rightarrow> string \<Rightarrow> fault + heap \<times> string" where
  "load_element h j start =
     (case p_eat_whitespace start of None \<Rightarrow> Inl Aborted | Some s1 \<Rightarrow>
       (case child_value s1 of
          (type, None) \<Rightarrow> Inl Aborted
        | (type, Some s2) \<Rightarrow> load_tail (CHR '']'') (add_child h j s1 None type) s2))"

lemma starts_with_length: "starts_with s lit \<Longrightarrow> length lit \<le> length s"
  unfolding starts_with_def by (metis length_take min.cobounded1)

lemma p_is_valid_number_end: "p_is_valid_number s = Some r \<Longrightarrow> is_number_end (deref r)"
  by (auto simp: p_is_valid_number_def number_fraction_def number_exponent_def Let_def
      split: if_splits)

lemma p_eat_whitespace_strict:
  "p_eat_whitespace s = Some r \<Longrightarrow> p_is_whitespace (deref s) \<Longrightarrow> length r < length s"
  using p_eat_whitespace_length[of "tl s" r]
  by (cases s) (auto simp: deref_def split: if_splits)

lemma p_eat_whitespace_id:
  "p_eat_whitespace s = Some r \<Longrightarrow> \<not> p_is_whitespace (deref s) \<Longrightarrow> r = s"
  by (cases s) (auto simp: deref_def split: if_splits)

lemma child_value_length:
  "child_value s = (t, Some r) \<Longrightarrow> length r \<le> length s"
  using p_is_valid_json_length[of s JSON_OBJECT r] p_is_valid_json_length[of s JSON_ARRAY r]
    p_is_valid_string_length[of s r] p_is_valid_number_length[of s r]
  by (auto simp: child_value_def split: if_splits)

lemma child_value_strict:
  "child_value s = (t, Some r) \<Longrightarrow> t \<noteq> JSON_NUMBER \<Longrightarrow> length r < length s"
  using p_is_valid_json_length[of s JSON_OBJECT r] p_is_valid_json_length[of s JSON_ARRAY r]
    p_is_valid_string_length[of s r] starts_with_length[of s "''true''"]
    starts_with_length[of s "''null''"] starts_with_length[of s "''false''"]
  by (auto simp: child_value_def split: if_splits)

lemma child_value_number:
  "child_value s = (JSON_NUMBER, Some r) \<Longrightarrow> is_number_end (deref r)"
  using p_is_valid_number_end[of s r]
  by (auto simp: child_value_def split: if_splits)

lemma load_tail_length:
  "load_tail c h s = Inr (h', r) \<Longrightarrow> length r \<le> length s"
  using p_eat_whitespace_length p_eat_whitespace_tl_length
  by (fastforce simp: load_tail_def split: option.splits if_splits dest: less_imp_le)

lemma load_member_length:
  assumes "load_member h j start = Inr (h', r)"
  shows "length r < length start"
proof -
  from assms obtain s1 s2 t s3 h1 where
    a: "p_is_valid_string start = Some s1" "p_eat_whitespace (tl s1) = Some s2"
       "child_value s2 = (t, Some s3)" "load_tail (CHR ''}'') h1 s3 = Inr (h', r)"
    by (auto simp: load_member_def split: option.splits sum.splits if_splits prod.splits)
  have "length s1 < length start" using a(1) by (rule p_is_valid_string_length)
  moreover have "length s2 \<le> length s1"
    using p_eat_whitespace_length[OF a(2)] by (cases s1) auto
  moreover have "length s3 \<le> length s2" using a(3) by (rule child_value_length)
  moreover have "length r \<le> length s3" using a(4) by (rule load_tail_length)
  ultimately show ?thesis by simp
qed

lemma load_element_length:
  assumes "load_element h j start = Inr (h', r)" "deref start \<noteq> CHR '']''"
  shows "length r < length start"
proof -
  from assms obtain s1 t s2 h1 where
    a: "p_eat_whitespace start = Some s1"
       "child_value s1 = (t, Some s2)" "load_tail (CHR '']'') h1 s2 = Inr (h', r)"
    by (auto simp: load_element_def split: option.splits sum.splits if_splits prod.splits)
  have l1: "length s1 \<le> length start" using a(1) by (rule p_eat_whitespace_length)
  have l2: "length s2 \<le> length s1" using a(2) by (rule child_value_length)
  from a(3) obtain s3 where s3: "p_eat_whitespace s2 = Some s3"
    by (auto simp: load_tail_def split: option.splits)
  have l3: "length s3 \<le> length s2" using s3 by (rule p_eat_whitespace_length)
  have ne3: "s3 \<noteq> []" using s3 by (rule p_eat_whitespace_nonempty)
  consider (close) "r = tl s3"
    | (comma) s4 where "p_eat_whitespace (tl s3) = Some s4" "r = s4"
    | (other) "deref s3 \<noteq> CHR '',''" "r = s3"
    using a(3) s3 by (auto simp: load_tail_def split: option.splits if_splits)
  then show ?thesis
  proof cases
    case close
    then show ?thesis using l1 l2 l3 ne3 by (cases s3) auto
  next
    case comma
    then show ?thesis using l1 l2 l3 ne3 p_eat_whitespace_length[of "tl s3" s4]
      by (cases s3) auto
  next
    case other
    show ?thesis
    proof (cases "t = JSON_NUMBER")
      case False
      then have "length s2 < length s1" using a(2) child_value_strict by blast
      then show ?thesis using other l1 l3 by simp
    next
      case True
      then have e: "is_number_end (deref s2)" using a(2) child_value_number by blast
      have "p_is_whitespace (deref s2)"
      proof (rule ccontr)
        assume "\<not> p_is_whitespace (deref s2)"
        then have "s3 = s2" "deref s2 = CHR '',''"
          using s3 e p_eat_whitespace_id by (auto simp: is_number_end_def)
        then show False using other by simp
      qed
      then have "length s3 < length s2" using s3 p_eat_whitespace_strict by blast
      then show ?thesis using other l1 l2 by simp
    qed
  qed
qed

text \<open>
  The two \<^verbatim>\<open>while(start < end)\<close> loops.  Both cursors point into the same text, so
  \<^verbatim>\<open>start < end\<close> holds when the suffix at \<^verbatim>\<open>end\<close> is the shorter one.
\<close>

function object_children :: "heap \<Rightarrow> nat \<Rightarrow> string \<Rightarrow> string \<Rightarrow> fault + heap" where
  "object_children h j end start =
     (if \<not> length end < length start then Inr h
      else if deref start = CHR ''}'' then Inr h
      else if deref start = DQUOTE then
        (case load_member h j start of Inl f \<Rightarrow> Inl f
         | Inr (h', start') \<Rightarrow> object_children h' j end start')
      else Inl Aborted)"
  by pat_completeness auto
termination
  by (relation "measure (\<lambda>(h, j, end, start). length start)")
     (auto dest: load_member_length)

declare object_children.simps [simp del]

function array_children :: "heap \<Rightarrow> nat \<Rightarrow> string \<Rightarrow> string \<Rightarrow> fault + heap" where
  "array_children h j end start =
     (if \<not> length end < length start then Inr h
      else if deref start = CHR '']'' then Inr h
      else
        (case load_element h j start of Inl f \<Rightarrow> Inl f
         | Inr (h', start') \<Rightarrow> array_children h' j end start'))"
  by pat_completeness auto
termination
  by (relation "measure (\<lambda>(h, j, end, start). length start)")
     (auto dest: load_element_length)

declare array_children.simps [simp del]

definition p_lazy_load :: "heap \<Rightarrow> nat option \<Rightarrow> fault + heap" where
  "p_lazy_load h jp =
     (case jp of None \<Rightarrow> Inr h | Some j \<Rightarrow>
        if length h \<le> j then Inl OutOfBounds
        else if children_count (h ! j) \<noteq> - 1 then Inr h
        else
          (let h0 = h[j := (h ! j)\<lparr>children_count := 0\<rparr>];
               data = backing_data (h ! j)
           in
           if node_type (h ! j) = JSON_NUMBER then
             (case p_is_valid_number data of None \<Rightarrow> Inl Aborted | Some e \<Rightarrow>
               (case atof_round (take (length data - length e) data) of
                  None \<Rightarrow> Inl Unrepresentable
                | Some v \<Rightarrow> Inr (h0[j := (h0 ! j)\<lparr>value_int := v\<rparr>])))
           else if node_type (h ! j) = JSON_STRING then
             (case p_is_valid_string data of None \<Rightarrow> Inl Aborted | Some e \<Rightarrow>
               (case p_unescape_string (take (length data - length e - 2) (tl data) @ [NUL]) of
                  Inl f \<Rightarrow> Inl f
                | Inr buf \<Rightarrow> Inr (h0[j := (h0 ! j)\<lparr>value_string := Some (c_str buf)\<rparr>])))
           else if node_type (h ! j) = JSON_OBJECT then
             (case p_is_valid_json data JSON_OBJECT of None \<Rightarrow> Inl Aborted | Some e \<Rightarrow>
               (case p_eat_whitespace (tl data) of None \<Rightarrow> Inl Aborted
                | Some start \<Rightarrow> object_children h0 j e start))
           else if node_type (h ! j) = JSON_ARRAY then
             (case p_is_valid_json data JSON_ARRAY of None \<Rightarrow> Inl Aborted | Some e \<Rightarrow>
               (case p_eat_whitespace (tl data) of None \<Rightarrow> Inl Aborted
                | Some start \<Rightarrow> array_children h0 j e start))
           else Inr h0))"

subsection \<open>Path resolution: \<^verbatim>\<open>p_traverse_json\<close>\<close>

text \<open>
  Every recursive call of \<^verbatim>\<open>p_traverse_json\<close> is a tail call, so one call is modelled as
  \<open>traverse_node\<close>, which either has the result or names the node and the rest of the path to go
  on with.
\<close>

datatype traverse_step = Result heap "nat option" | Recurse heap "nat option" string

text \<open>\<^verbatim>\<open>while(*end != '/' && *end != '[' && *end != '\0') end++;\<close> stops at such a character.\<close>

definition is_name_end :: "char \<Rightarrow> bool" where
  "is_name_end c = (c = CHR ''/'' \<or> c = CHR ''['' \<or> c = NUL)"

text \<open>
  The \<^verbatim>\<open>for\<close> loop over the children of an object, comparing the name with \<^verbatim>\<open>strcmp\<close>.  A child
  pointer is never \<^verbatim>\<open>NULL\<close> in the table.  \<^verbatim>\<open>strcmp\<close> on a child without a name would read through a
  null pointer.
\<close>

function find_child :: "heap \<Rightarrow> nat list \<Rightarrow> int \<Rightarrow> string \<Rightarrow> nat \<Rightarrow> fault + nat option" where
  "find_child h cs count name i =
     (if int i < count then
        (if length cs \<le> i then Inl OutOfBounds
         else if length h \<le> cs ! i then Inl OutOfBounds
         else (case path_name (h ! (cs ! i)) of None \<Rightarrow> Inl OutOfBounds
               | Some n \<Rightarrow> if name = n then Inr (Some (cs ! i))
                           else find_child h cs count name (Suc i)))
      else Inr None)"
  by pat_completeness auto
termination
  by (relation "measure (\<lambda>(h, cs, count, name, i). nat count - i)") auto

declare find_child.simps [simp del]

text \<open>
  The object branch (lines 759 to 782).  After \<^verbatim>\<open>end--\<close> the source tests \<^verbatim>\<open>end[1]\<close>, the
  character the scan stopped at, and goes on at \<^verbatim>\<open>end+2\<close>, the character after it.
\<close>

definition traverse_object :: "heap \<Rightarrow> nat \<Rightarrow> string \<Rightarrow> fault + traverse_step" where
  "traverse_object h j path =
     (let name = takeWhile (\<lambda>c. \<not> is_name_end c) path;
          end = dropWhile (\<lambda>c. \<not> is_name_end c) path
      in case find_child h (the (children (h ! j))) (children_count (h ! j)) name 0 of
           Inl f \<Rightarrow> Inl f
         | Inr None \<Rightarrow> Inr (Result h None)
         | Inr (Some c) \<Rightarrow>
             if deref end = NUL then Inr (Result h (Some c))
             else Inr (Recurse h (Some c) (tl end)))"

text \<open>
  The scan of the array branch, \<^verbatim>\<open>while(*end != ']' || *end != '\0') end++;\<close>.  At the
  terminator the condition holds, the cursor is stepped past it, and the next read is outside
  the path.
\<close>

fun scan_bracket :: "string \<Rightarrow> fault + string" where
  "scan_bracket [] = (if NUL \<noteq> CHR '']'' \<or> NUL \<noteq> NUL then Inl OutOfBounds else Inr [])"
| "scan_bracket (c # s) = (if c \<noteq> CHR '']'' \<or> c \<noteq> NUL then scan_bracket s else Inr (c # s))"

text \<open>\<^verbatim>\<open>atoi\<close> of the C library, without overflow: white space, an optional sign, decimal
  digits.\<close>

definition atoi :: "string \<Rightarrow> int" where
  "atoi s =
     (let s1 = dropWhile is_space (c_str s);
          s2 = (if deref s1 = CHR ''-'' \<or> deref s1 = CHR ''+'' then tl s1 else s1);
          v = int (decimal_digits 0 s2)
      in if deref s1 = CHR ''-'' then - v else v)"

text \<open>
  The array branch (lines 785 to 809).  After \<^verbatim>\<open>end--\<close> the source tests \<^verbatim>\<open>end[2]\<close>, the character
  after the bracket, and goes on at \<^verbatim>\<open>end+3\<close>.  The index is compared with the number of children
  from above only (\<^verbatim>\<open>idx >= j->children_count\<close>).
\<close>

definition traverse_array :: "heap \<Rightarrow> nat \<Rightarrow> string \<Rightarrow> fault + traverse_step" where
  "traverse_array h j path =
     (case scan_bracket path of Inl f \<Rightarrow> Inl f | Inr end \<Rightarrow>
        if deref end = NUL then Inr (Result h None)
        else if idx end 1 \<noteq> CHR ''['' \<and> idx end 1 \<noteq> CHR ''/'' \<and> idx end 1 \<noteq> NUL
          then Inr (Result h None)
        else
          (let i = atoi (take (length path - length end) path) in
           if i \<ge> children_count (h ! j) then Inr (Result h None)
           else if i < 0 \<or> length (the (children (h ! j))) \<le> nat i then Inl OutOfBounds
           else if idx end 1 = NUL
             then Inr (Result h (Some (the (children (h ! j)) ! nat i)))
           else Inr (Recurse h (Some (the (children (h ! j)) ! nat i)) (drop 2 end))))"

text \<open>One call of \<^verbatim>\<open>p_traverse_json\<close> with a path that is not empty and a node that is not
  \<^verbatim>\<open>NULL\<close> (lines 746 to 812).\<close>

definition traverse_node :: "heap \<Rightarrow> nat \<Rightarrow> string \<Rightarrow> fault + traverse_step" where
  "traverse_node h j path =
     (if c_str path = ''..'' then Inr (Result h (parent (h ! j)))
      else if starts_with path ''../'' \<or> starts_with path ''..['' then
        Inr (Recurse h (parent (h ! j)) (drop 3 path))
      else
        (case (if children_count (h ! j) = - 1 then p_lazy_load h (Some j) else Inr h) of
           Inl f \<Rightarrow> Inl f
         | Inr h1 \<Rightarrow>
             if children (h1 ! j) = None then Inr (Result h1 None)
             else if node_type (h1 ! j) = JSON_OBJECT then traverse_object h1 j path
             else if node_type (h1 ! j) = JSON_ARRAY then traverse_array h1 j path
             else Inr (Result h1 None)))"

lemma scan_bracket_faults: "scan_bracket s = Inl OutOfBounds"
  by (induction s) auto

lemma dropWhile_tl_length:
  "deref (dropWhile P s) \<noteq> NUL \<Longrightarrow> length (tl (dropWhile P s)) < length s"
  using length_dropWhile_le[of P s]
  by (cases "dropWhile P s") (auto simp: deref_def)

lemma traverse_node_length:
  assumes "traverse_node h j path = Inr (Recurse h' j' path')"
  shows "length path' < length path"
proof -
  consider (up) "starts_with path ''../'' \<or> starts_with path ''..[''" "path' = drop 3 path"
    | (obj) h1 where "traverse_object h1 j path = Inr (Recurse h' j' path')"
    | (arr) h1 where "traverse_array h1 j path = Inr (Recurse h' j' path')"
    using assms by (auto simp: traverse_node_def split: if_splits sum.splits)
  then show ?thesis
  proof cases
    case up
    then have "3 \<le> length path" using starts_with_length by fastforce
    then show ?thesis using up by simp
  next
    case obj
    then show ?thesis
      by (auto simp: traverse_object_def Let_def split: sum.splits option.splits if_splits
          intro: dropWhile_tl_length)
  next
    case arr
    then show ?thesis by (simp add: traverse_array_def scan_bracket_faults)
  qed
qed

function p_traverse_json :: "heap \<Rightarrow> nat option \<Rightarrow> string \<Rightarrow> fault + heap \<times> nat option" where
  "p_traverse_json h jp path =
     (if deref path = NUL then Inr (h, jp)
      else case jp of None \<Rightarrow> Inr (h, None) | Some j \<Rightarrow>
        if length h \<le> j then Inl OutOfBounds
        else (case traverse_node h j path of
                Inl f \<Rightarrow> Inl f
              | Inr (Result h' r) \<Rightarrow> Inr (h', r)
              | Inr (Recurse h' j' path') \<Rightarrow> p_traverse_json h' j' path'))"
  by pat_completeness auto
termination
  by (relation "measure (\<lambda>(h, jp, path). length path)")
     (auto dest: traverse_node_length)

declare p_traverse_json.simps [simp del]

subsection \<open>The public interface\<close>

text \<open>
  Each operation takes the table and returns it with its result, since any of them may load a
  node.  \<^verbatim>\<open>json_free\<close> releases the memory of a tree and is not modelled.
\<close>

definition json_traverse :: "heap \<Rightarrow> nat option \<Rightarrow> string \<Rightarrow> fault + heap \<times> nat option" where
  "json_traverse h jp path =
     (case jp of None \<Rightarrow> Inr (h, None) | Some j \<Rightarrow>
        if deref path = CHR ''/'' then
          (if length h \<le> j then Inl OutOfBounds
           else p_traverse_json h (Some (root (h ! j))) (tl path))
        else p_traverse_json h (Some j) path)"

text \<open>\<^verbatim>\<open>if(j->children_count == -1) p_lazy_load(j);\<close>\<close>

definition load_if_unknown :: "heap \<Rightarrow> nat \<Rightarrow> fault + heap" where
  "load_if_unknown h j =
     (if children_count (h ! j) = - 1 then p_lazy_load h (Some j) else Inr h)"

definition json_value_as_string :: "heap \<Rightarrow> nat option \<Rightarrow> fault + heap \<times> string option" where
  "json_value_as_string h jp =
     (case jp of None \<Rightarrow> Inr (h, None) | Some j \<Rightarrow>
        if length h \<le> j then Inl OutOfBounds
        else if node_type (h ! j) \<noteq> JSON_STRING then Inr (h, None)
        else (case load_if_unknown h j of Inl f \<Rightarrow> Inl f
              | Inr h1 \<Rightarrow> Inr (h1, value_string (h1 ! j))))"

definition json_value_as_int :: "heap \<Rightarrow> nat option \<Rightarrow> fault + heap \<times> int" where
  "json_value_as_int h jp =
     (case jp of None \<Rightarrow> Inr (h, 0) | Some j \<Rightarrow>
        if length h \<le> j then Inl OutOfBounds
        else if node_type (h ! j) = JSON_TRUE then Inr (h, 1)
        else if node_type (h ! j) \<noteq> JSON_NUMBER then Inr (h, 0)
        else (case load_if_unknown h j of Inl f \<Rightarrow> Inl f
              | Inr h1 \<Rightarrow> Inr (h1, value_int (h1 ! j))))"

text \<open>
  \<^verbatim>\<open>json_value_as_double\<close> returns a floating-point number, which is not modelled; its effect
  on the table is kept: a node of kind Number is loaded if it has not been.
\<close>

definition json_value_as_double :: "heap \<Rightarrow> nat option \<Rightarrow> fault + heap" where
  "json_value_as_double h jp =
     (case jp of None \<Rightarrow> Inr h | Some j \<Rightarrow>
        if length h \<le> j then Inl OutOfBounds
        else if node_type (h ! j) \<noteq> JSON_NUMBER then Inr h
        else load_if_unknown h j)"

text \<open>\<^verbatim>\<open>json_children_count\<close> returns the 64-bit count as an \<^verbatim>\<open>int\<close>.\<close>

definition to_int32 :: "int \<Rightarrow> int" where
  "to_int32 x = sint (word_of_int x :: 32 word)"

definition json_children_count :: "heap \<Rightarrow> nat option \<Rightarrow> fault + heap \<times> int" where
  "json_children_count h jp =
     (case jp of None \<Rightarrow> Inr (h, 0) | Some j \<Rightarrow>
        if length h \<le> j then Inl OutOfBounds
        else (case load_if_unknown h j of Inl f \<Rightarrow> Inl f
              | Inr h1 \<Rightarrow> Inr (h1, to_int32 (children_count (h1 ! j)))))"

definition json_get_child :: "heap \<Rightarrow> nat option \<Rightarrow> int \<Rightarrow> fault + heap \<times> nat option" where
  "json_get_child h jp n =
     (case jp of None \<Rightarrow> Inr (h, None) | Some j \<Rightarrow>
        if length h \<le> j then Inl OutOfBounds
        else (case load_if_unknown h j of Inl f \<Rightarrow> Inl f
              | Inr h1 \<Rightarrow>
                  if n < 0 \<or> n \<ge> children_count (h1 ! j) then Inr (h1, None)
                  else (case children (h1 ! j) of None \<Rightarrow> Inl OutOfBounds
                        | Some cs \<Rightarrow> if length cs \<le> nat n then Inl OutOfBounds
                                     else Inr (h1, Some (cs ! nat n)))))"


definition json_get_data :: "heap \<Rightarrow> nat option \<Rightarrow> fault + string" where
  "json_get_data h jp =
     (case jp of None \<Rightarrow> Inr [] | Some j \<Rightarrow>
        if length h \<le> j \<or> length h \<le> root (h ! j) then Inl OutOfBounds
        else Inr (backing_data (h ! root (h ! j))))"

definition json_get_type :: "heap \<Rightarrow> nat option \<Rightarrow> fault + json_node_type_t" where
  "json_get_type h jp =
     (case jp of None \<Rightarrow> Inr JSON_INVALID | Some j \<Rightarrow>
        if length h \<le> j then Inl OutOfBounds else Inr (node_type (h ! j)))"

section \<open>Claims about the validator\<close>

text \<open>
  Claim C4.  A number literal with a fraction, followed by a comma, is a numeral followed by
  one of the two terminators, yet \<^verbatim>\<open>p_is_valid_number\<close> rejects it: on \<^verbatim>\<open>1.5,\<close> the digit loop
  of the fraction block starts on the \<^verbatim>\<open>'.'\<close> itself and does not move, the \<^verbatim>\<open>'.'\<close> is neither a
  terminator nor an exponent mark, and the function returns \<^verbatim>\<open>NULL\<close>.
\<close>

theorem p_is_valid_number_rejects_fraction:
  "p_is_valid_number ''1.5,'' = None \<and> p_is_valid_number ''15,'' = Some '',''"
  by (simp add: validator_defs)

text \<open>
  Claim C5.  When \<^verbatim>\<open>p_is_valid_string\<close> succeeds, the cursor it returns stands directly after
  the closing quote of the literal, and at least one more character of the buffer is there: the
  returned cursor is not at the terminator.  So a string whose closing quote is the last
  character of the buffer is rejected.
\<close>

lemma string_loop_closing_quote:
  "string_loop s = Some r \<Longrightarrow> deref r \<noteq> NUL \<and> (\<exists>body. s = body @ DQUOTE # r)"
proof (induction s arbitrary: r rule: string_loop.induct)
  case (1 s)
  note c = string_loop_cases[OF "1.prems"]
  then have ne: "s \<noteq> []" by (auto simp: deref_def)
  from c consider
      (quote) "deref s = DQUOTE" "r = tl s" "deref (tl s) \<noteq> NUL"
    | (simple) "deref r \<noteq> NUL \<and> (\<exists>body. drop 2 s = body @ DQUOTE # r)"
    | (uni) "deref r \<noteq> NUL \<and> (\<exists>body. drop 6 s = body @ DQUOTE # r)"
    | (plain) "deref r \<noteq> NUL \<and> (\<exists>body. tl s = body @ DQUOTE # r)"
    using "1.IH"(1)[of r] "1.IH"(2)[of r] "1.IH"(3)[of r] by blast
  then show ?case
  proof cases
    case quote
    then have "s = [] @ DQUOTE # r" using ne by (cases s) (auto simp: deref_def)
    then have "\<exists>body. s = body @ DQUOTE # r" by (rule exI)
    moreover have "deref r \<noteq> NUL" using quote by simp
    ultimately show ?thesis by simp
  next
    case simple
    then obtain body where "drop 2 s = body @ DQUOTE # r" by blast
    then have "s = (take 2 s @ body) @ DQUOTE # r"
      by (metis append_assoc append_take_drop_id)
    then show ?thesis using simple by blast
  next
    case uni
    then obtain body where "drop 6 s = body @ DQUOTE # r" by blast
    then have "s = (take 6 s @ body) @ DQUOTE # r"
      by (metis append_assoc append_take_drop_id)
    then show ?thesis using uni by blast
  next
    case plain
    then obtain body where "tl s = body @ DQUOTE # r" by blast
    then have "s = (hd s # body) @ DQUOTE # r" using ne by (cases s) auto
    then show ?thesis using plain by blast
  qed
qed

theorem p_is_valid_string_needs_successor:
  "p_is_valid_string s = Some r \<Longrightarrow>
     (\<exists>body. s = DQUOTE # body @ DQUOTE # r) \<and> r \<noteq> [] \<and> deref r \<noteq> NUL"
proof -
  assume a: "p_is_valid_string s = Some r"
  then have q: "deref s = DQUOTE" and l: "string_loop (tl s) = Some r"
    by (auto simp: p_is_valid_string_def split: if_splits)
  from q have s: "s = DQUOTE # tl s" by (cases s) (auto simp: deref_def)
  from string_loop_closing_quote[OF l] obtain body where
    b: "tl s = body @ DQUOTE # r" and n: "deref r \<noteq> NUL" by blast
  from s b have "s = DQUOTE # body @ DQUOTE # r" by simp
  moreover from n have "r \<noteq> []" by (auto simp: deref_def)
  ultimately show ?thesis using n by blast
qed

theorem p_is_valid_string_needs_successor_witness:
  "(\<exists>body. [DQUOTE, CHR ''a'', CHR ''b'', DQUOTE, CHR '':''] = DQUOTE # body @ DQUOTE # '':'')
     \<and> '':'' \<noteq> [] \<and> deref '':'' \<noteq> NUL
     \<and> p_is_valid_string [DQUOTE, CHR ''a'', CHR ''b'', DQUOTE] = None"
proof -
  have h: "p_is_valid_string [DQUOTE, CHR ''a'', CHR ''b'', DQUOTE, CHR '':''] = Some '':''"
    by (simp add: validator_defs string_loop.simps)
  have n: "p_is_valid_string [DQUOTE, CHR ''a'', CHR ''b'', DQUOTE] = None"
    by (simp add: validator_defs string_loop.simps)
  show ?thesis using p_is_valid_string_needs_successor[OF h] n by blast
qed

text \<open>
  Claim C6.  A number literal whose integer part starts with \<^verbatim>\<open>'0'\<close>, with or without a leading
  \<^verbatim>\<open>'-'\<close>, is rejected unless the character right after that \<^verbatim>\<open>'0'\<close> is \<^verbatim>\<open>'.'\<close>.
\<close>

theorem p_is_valid_number_leading_zero:
  "deref s = CHR ''0'' \<Longrightarrow> idx s 1 \<noteq> CHR ''.'' \<Longrightarrow>
     p_is_valid_number s = None \<and> p_is_valid_number (CHR ''-'' # s) = None"
  by (cases s) (auto simp: p_is_valid_number_def deref_def idx_def)

theorem p_is_valid_number_leading_zero_witness:
  "p_is_valid_number ''01,'' = None \<and> p_is_valid_number ''-01,'' = None"
proof -
  have h1: "deref ''01,'' = CHR ''0''" by (simp add: deref_def)
  have h2: "idx ''01,'' 1 \<noteq> CHR ''.''" by (simp add: idx_def deref_def)
  show ?thesis by (rule p_is_valid_number_leading_zero[OF h1 h2])
qed

section \<open>Claims about parsing\<close>

text \<open>
  Claim C1.  \<^verbatim>\<open>json_parse\<close> asks only whether \<^verbatim>\<open>p_is_valid_json\<close> returned \<^verbatim>\<open>NULL\<close> and never
  looks at the cursor it returned.  On the three characters \<^verbatim>\<open>{}x\<close> the validator stops after
  the closing brace with \<^verbatim>\<open>x\<close> left over, and \<^verbatim>\<open>json_parse\<close> returns a root node of kind Object.
\<close>

theorem json_parse_accepts_trailing_text:
  "json_parse (''{}x'' @ [NUL]) 3 =
     Inr (Some ([\<lparr>root = 0, parent = None, node_type = JSON_OBJECT, backing_data = ''{}x'',
                     path_name = None, children_count = - 1, children = None,
                     value_string = None, value_int = 0\<rparr>], 0))
   \<and> p_is_valid_json ''{}x'' JSON_OBJECT = Some ''x''"
  by code_simp

text \<open>
  Claim C2.  \<^verbatim>\<open>json_parse\<close> of the seven characters \<^verbatim>\<open>[1,2,3]\<close> returns \<^verbatim>\<open>NULL\<close>: the last number is
  followed by the closing bracket, which \<^verbatim>\<open>p_is_valid_number\<close> takes for an invalid character.
\<close>

theorem json_parse_rejects_array_of_numbers:
  "json_parse (''[1,2,3]'' @ [NUL]) 7 = Inr None \<and> p_is_valid_number ''3]'' = None"
  by code_simp

text \<open>
  With a space before the closing bracket the same document is accepted, has three children,
  and the integer accessor yields 1, 2 and 3.
\<close>

lemma json_parse_array_of_numbers_with_space:
  "(case json_parse (''[1,2,3 ]'' @ [NUL]) 8 of
      Inr (Some (h, r)) \<Rightarrow>
        (case json_children_count h (Some r) of
           Inr (h1, n) \<Rightarrow> n = 3 \<and> children (h1 ! r) = Some [1, 2, 3]
             \<and> map_sum id snd (json_value_as_int h1 (Some 1)) = Inr 1
             \<and> map_sum id snd (json_value_as_int h1 (Some 2)) = Inr 2
             \<and> map_sum id snd (json_value_as_int h1 (Some 3)) = Inr 3
         | _ \<Rightarrow> False)
    | _ \<Rightarrow> False)"
  by code_simp

text \<open>
  Claim C3.  On an array node that has children, the scan for the closing bracket never stops:
  its condition \<^verbatim>\<open>*end != ']' || *end != '\0'\<close> holds for every character, so the cursor runs
  past the terminator of the path.  Resolving \<^verbatim>\<open>0]\<close> on the root of \<^verbatim>\<open>[1 ]\<close> reads outside the
  path instead of returning the first child.
\<close>

theorem json_traverse_array_index_out_of_bounds:
  "(case json_parse (''[1 ]'' @ [NUL]) 4 of
      Inr (Some (h, r)) \<Rightarrow>
        node_type (h ! r) = JSON_ARRAY
        \<and> map_sum id snd (json_children_count h (Some r)) = Inr 1
        \<and> json_traverse h (Some r) ''0]'' = Inl OutOfBounds
    | _ \<Rightarrow> False)"
  by code_simp

section \<open>The escape decoder computes the decoded text\<close>

lemma shift_one_spec:
  "NUL \<notin> set rest \<Longrightarrow> c \<noteq> NUL \<Longrightarrow>
   shift_one (pre @ c # rest @ NUL # junk) (length pre) = Inr (pre @ rest @ NUL # NUL # junk)"
proof (induction rest arbitrary: pre c)
  case Nil
  have "shift_one (pre @ c # NUL # junk) (length pre)
        = shift_one ((pre @ [NUL]) @ NUL # junk) (length (pre @ [NUL]))"
    using Nil by (subst shift_one.simps) (simp add: nth_append)
  also have "\<dots> = Inr ((pre @ [NUL]) @ NUL # junk)"
    by (subst shift_one.simps) (simp add: nth_append del: append_assoc)
  finally show ?case by simp
next
  case (Cons x rest)
  have "shift_one (pre @ c # (x # rest) @ NUL # junk) (length pre)
        = shift_one ((pre @ [x]) @ x # rest @ NUL # junk) (length (pre @ [x]))"
    using Cons.prems by (subst shift_one.simps) (auto simp: nth_append)
  also have "\<dots> = Inr ((pre @ [x]) @ rest @ NUL # NUL # junk)"
    using Cons.prems by (intro Cons.IH) auto
  finally show ?case by simp
qed

lemma shift_down_spec:
  "NUL \<notin> set rest \<Longrightarrow> gap \<noteq> [] \<Longrightarrow>
   \<exists>tail. shift_down (pre @ gap @ rest @ NUL # junk) (length pre + length gap) (length pre)
            = Inr (pre @ rest @ NUL # tail)
          \<and> length tail = length gap + length junk"
proof (induction rest arbitrary: pre gap)
  case Nil
  then obtain g gs where g: "gap = g # gs" by (cases gap) auto
  have "shift_down (pre @ gap @ [] @ NUL # junk) (length pre + length gap) (length pre)
        = Inr (pre @ [] @ NUL # (gs @ NUL # junk))"
    by (subst shift_down.simps) (simp add: nth_append g)
  then show ?case using g by auto
next
  case (Cons x rest)
  then obtain g gs where g: "gap = g # gs" by (cases gap) auto
  have "shift_down (pre @ gap @ (x # rest) @ NUL # junk) (length pre + length gap) (length pre)
        = shift_down ((pre @ [x]) @ (gs @ [x]) @ rest @ NUL # junk)
            (length (pre @ [x]) + length (gs @ [x])) (length (pre @ [x]))"
    using Cons.prems by (subst shift_down.simps) (auto simp: nth_append g)
  moreover have "\<exists>tail. shift_down ((pre @ [x]) @ (gs @ [x]) @ rest @ NUL # junk)
            (length (pre @ [x]) + length (gs @ [x])) (length (pre @ [x]))
            = Inr ((pre @ [x]) @ rest @ NUL # tail)
          \<and> length tail = length (gs @ [x]) + length junk"
    using Cons.prems by (intro Cons.IH) auto
  ultimately show ?case using g by auto
qed


lemma shift_down_at:
  assumes "NUL \<notin> set rest" "gap \<noteq> []" "i = length pre + length gap" "k = length pre"
    "buf = pre @ gap @ rest @ NUL # junk"
  shows "\<exists>tail. shift_down buf i k = Inr (pre @ rest @ NUL # tail)
          \<and> length tail = length gap + length junk"
  using shift_down_spec[OF assms(1,2), of pre junk] assms(3,4,5) by simp

text \<open>
  The UTF-8 encoding of a code point below \<open>0x10000\<close>, as the specification words it: one byte
  up to \<open>0x7F\<close>, two bytes up to \<open>0x7FF\<close>, three bytes otherwise.
\<close>

definition utf8_encode :: "int \<Rightarrow> string" where
  "utf8_encode code =
     (if code \<le> 0x7F then [char_of code]
      else if code \<le> 0x7FF then
        [char_of (0xC0 OR drop_bit 6 code), char_of (0x80 OR (code AND 0x3F))]
      else
        [char_of (0xE0 OR drop_bit 12 code), char_of (0x80 OR (drop_bit 6 code AND 0x3F)),
         char_of (0x80 OR (code AND 0x3F))])"

text \<open>
  The code point written by four hexadecimal digits.
\<close>

fun code_point :: "string \<Rightarrow> int" where
  "code_point [a, b, c, d] =
     4096 * hex_value a + 256 * hex_value b + 16 * hex_value c + hex_value d"
| "code_point _ = 0"

text \<open>
  The decoded text of a string body, read from left to right: a \<^verbatim>\<open>\uXXXX\<close> escape becomes the
  UTF-8 bytes of its code point, a simple escape becomes its character, and any other
  character stays.
\<close>

function decode_spec :: "string \<Rightarrow> string" where
  "decode_spec [] = []"
| "decode_spec (c # s) =
     (if c = BACKSLASH then
        (case s of [] \<Rightarrow> [BACKSLASH]
         | e # r \<Rightarrow>
             if e = CHR ''u'' then utf8_encode (code_point (take 4 r)) @ decode_spec (drop 4 r)
             else simple_escape e # decode_spec r)
      else c # decode_spec s)"
  by pat_completeness auto
termination
  by (relation "measure length") auto

text \<open>
  Every backslash starts a simple escape or a \<^verbatim>\<open>\uXXXX\<close> escape with four hexadecimal digits.
\<close>

function well_escaped :: "string \<Rightarrow> bool" where
  "well_escaped [] = True"
| "well_escaped (c # s) =
     (if c = BACKSLASH then
        (case s of [] \<Rightarrow> False
         | e # r \<Rightarrow>
             if is_simple_escape e then well_escaped r
             else e = CHR ''u'' \<and> 4 \<le> length r \<and> (\<forall>x\<in>set (take 4 r). is_hex x)
                  \<and> well_escaped (drop 4 r))
      else well_escaped s)"
  by pat_completeness auto
termination
  by (relation "measure length") auto

lemma is_hex_facts:
  "is_hex c \<Longrightarrow> c \<noteq> NUL \<and> \<not> is_space c \<and> c \<noteq> CHR ''-'' \<and> c \<noteq> CHR ''+''
     \<and> c \<noteq> CHR ''x'' \<and> c \<noteq> CHR ''X''"
  by (auto simp: is_hex_def is_space_def)

lemma is_simple_escape_facts: "is_simple_escape e \<Longrightarrow> e \<noteq> NUL \<and> e \<noteq> CHR ''u''"
  by (auto simp: is_simple_escape_def)

lemma strtol16_hex:
  assumes "is_hex a" "is_hex b" "is_hex c" "is_hex d"
  shows "strtol16 [a, b, c, d] = code_point [a, b, c, d]"
  using assms is_hex_facts[of a] is_hex_facts[of b] is_hex_facts[of c] is_hex_facts[of d]
  by (simp add: strtol16_def c_str_def deref_def idx_def Let_def)

lemma utf8_encode_length:
  "length (utf8_encode code) = (if code \<le> 0x7F then 1 else if code \<le> 0x7FF then 2 else 3)"
  by (simp add: utf8_encode_def)

lemma step_plain:
  "c \<noteq> BACKSLASH \<Longrightarrow>
   unescape_step (done @ c # rest) (length done) = Inr (done @ c # rest, length done + 1)"
  by (simp add: unescape_step_def)

lemma step_simple:
  assumes "is_simple_escape e" "NUL \<notin> set r"
  shows "unescape_step (done @ BACKSLASH # e # r @ NUL # junk) (length done)
         = Inr (done @ simple_escape e # r @ NUL # NUL # junk, length done + 1)"
proof -
  define b where "b = done @ BACKSLASH # e # r @ NUL # junk"
  have e: "e \<noteq> NUL" "e \<noteq> CHR ''u''" using is_simple_escape_facts[OF assms(1)] by auto
  have b0: "b ! length done = BACKSLASH" by (simp add: b_def)
  have b1: "b ! (length done + 1) = e" by (simp add: b_def nth_append)
  have u: "is_unicode_escape b (length done) = Inr False"
    using e b1 by (simp add: is_unicode_escape_def peek_def b_def)
  have w: "b[length done := simple_escape e] = (done @ [simple_escape e]) @ e # r @ NUL # junk"
    by (simp add: b_def)
  have "shift_one ((done @ [simple_escape e]) @ e # r @ NUL # junk)
           (length (done @ [simple_escape e]))
        = Inr ((done @ [simple_escape e]) @ r @ NUL # NUL # junk)"
    using assms(2) e(1) by (rule shift_one_spec)
  then have "unescape_simple b (length done)
        = Inr (done @ simple_escape e # r @ NUL # NUL # junk, length done + 1)"
    using w b1 by (simp add: unescape_simple_def)
  then show ?thesis using b0 u by (simp add: unescape_step_def b_def)
qed

lemma step_unicode:
  assumes h: "is_hex a" "is_hex b" "is_hex c" "is_hex d" and r: "NUL \<notin> set r"
  shows "\<exists>tail.
     unescape_step (done @ BACKSLASH # CHR ''u'' # a # b # c # d # r @ NUL # junk) (length done)
       = Inr (done @ utf8_encode (code_point [a, b, c, d]) @ r @ NUL # tail,
              length done + length (utf8_encode (code_point [a, b, c, d])))
     \<and> length tail + length (utf8_encode (code_point [a, b, c, d])) = length junk + 6"
proof -
  define buf where "buf = done @ BACKSLASH # CHR ''u'' # a # b # c # d # r @ NUL # junk"
  define code where "code = code_point [a, b, c, d]"
  define n where "n = length done"
  have nz: "a \<noteq> NUL" "b \<noteq> NUL" "c \<noteq> NUL" "d \<noteq> NUL"
    using h is_hex_facts by blast+
  have at: "buf ! n = BACKSLASH" "buf ! (n + 1) = CHR ''u''" "buf ! (n + 2) = a"
    "buf ! (n + 3) = b" "buf ! (n + 4) = c" "buf ! (n + 5) = d"
    by (simp_all add: buf_def n_def nth_append)
  have len: "n + 6 < length buf" by (simp add: buf_def n_def)
  have u: "is_unicode_escape buf n = Inr True"
    using nz at len by (simp add: is_unicode_escape_def peek_def)
  have cd: "strtol16 [buf ! (n + 2), buf ! (n + 3), buf ! (n + 4), buf ! (n + 5)] = code"
    using at strtol16_hex[OF h] by (simp add: code_def)
  have step: "unescape_step buf n = unescape_unicode buf n"
    using at(1) u by (simp add: unescape_step_def)
  consider (one) "code \<le> 0x7F" | (two) "\<not> code \<le> 0x7F" "code \<le> 0x7FF"
    | (three) "\<not> code \<le> 0x7F" "\<not> code \<le> 0x7FF" by blast
  then have "\<exists>tail. unescape_unicode buf n
       = Inr (done @ utf8_encode code @ r @ NUL # tail, n + length (utf8_encode code))
     \<and> length tail + length (utf8_encode code) = length junk + 6"
  proof cases
    case one
    define x1 where "x1 = (char_of code :: char)"
    have w: "buf[n := x1] = (done @ [x1]) @ [CHR ''u'', a, b, c, d] @ r @ NUL # junk"
      by (simp add: buf_def n_def)
    have "\<exists>tail. shift_down (buf[n := x1]) (n + 1 + 5) (n + 1)
           = Inr ((done @ [x1]) @ r @ NUL # tail)
         \<and> length tail = length [CHR ''u'', a, b, c, d] + length junk"
      using w by (intro shift_down_at[OF r]) (simp_all add: n_def)
    then obtain tail where
      "shift_down (buf[n := x1]) (n + 1 + 5) (n + 1) = Inr ((done @ [x1]) @ r @ NUL # tail)"
      "length tail = 5 + length junk"
      by auto
    then show ?thesis using one cd
      by (simp add: unescape_unicode_def utf8_encode_def x1_def)
  next
    case two
    define x1 where "x1 = (char_of (0xC0 OR drop_bit 6 code) :: char)"
    define x2 where "x2 = (char_of (0x80 OR (code AND 0x3F)) :: char)"
    have w: "buf[n := x1, n + 1 := x2] = (done @ [x1, x2]) @ [a, b, c, d] @ r @ NUL # junk"
      by (simp add: buf_def n_def list_update_append)
    have "\<exists>tail. shift_down (buf[n := x1, n + 1 := x2]) (n + 2 + 4) (n + 2)
           = Inr ((done @ [x1, x2]) @ r @ NUL # tail)
         \<and> length tail = length [a, b, c, d] + length junk"
      using w by (intro shift_down_at[OF r]) (simp_all add: n_def)
    then obtain tail where
      "shift_down (buf[n := x1, n + 1 := x2]) (n + 2 + 4) (n + 2)
         = Inr ((done @ [x1, x2]) @ r @ NUL # tail)"
      "length tail = 4 + length junk"
      by auto
    then show ?thesis using two cd
      by (simp add: unescape_unicode_def utf8_encode_def x1_def x2_def)
  next
    case three
    define x1 where "x1 = (char_of (0xE0 OR drop_bit 12 code) :: char)"
    define x2 where "x2 = (char_of (0x80 OR (drop_bit 6 code AND 0x3F)) :: char)"
    define x3 where "x3 = (char_of (0x80 OR (code AND 0x3F)) :: char)"
    have w: "buf[n := x1, n + 1 := x2, n + 2 := x3]
        = (done @ [x1, x2, x3]) @ [b, c, d] @ r @ NUL # junk"
      by (simp add: buf_def n_def list_update_append)
    have "\<exists>tail. shift_down (buf[n := x1, n + 1 := x2, n + 2 := x3]) (n + 3 + 3) (n + 3)
           = Inr ((done @ [x1, x2, x3]) @ r @ NUL # tail)
         \<and> length tail = length [b, c, d] + length junk"
      using w by (intro shift_down_at[OF r]) (simp_all add: n_def)
    then obtain tail where
      "shift_down (buf[n := x1, n + 1 := x2, n + 2 := x3]) (n + 3 + 3) (n + 3)
         = Inr ((done @ [x1, x2, x3]) @ r @ NUL # tail)"
      "length tail = 3 + length junk"
      by auto
    then show ?thesis using three cd
      by (simp add: unescape_unicode_def utf8_encode_def x1_def x2_def x3_def)
  qed
  then show ?thesis using step by (simp add: buf_def code_def n_def)
qed

lemma unescape_loop_step:
  "it < length b \<Longrightarrow> b ! it \<noteq> NUL \<Longrightarrow> unescape_step b it = Inr (b', it') \<Longrightarrow>
   unescape_loop b it = unescape_loop b' it'"
  by (subst unescape_loop.simps) simp

lemma well_escaped_unicode:
  assumes "well_escaped (BACKSLASH # e # r)" "\<not> is_simple_escape e"
  shows "\<exists>a b c d r'. e = CHR ''u'' \<and> r = a # b # c # d # r' \<and> is_hex a \<and> is_hex b
           \<and> is_hex c \<and> is_hex d \<and> well_escaped r'"
proof -
  from assms have u: "e = CHR ''u''" and l: "4 \<le> length r"
    and hx: "\<forall>x\<in>set (take 4 r). is_hex x" and w: "well_escaped (drop 4 r)"
    by auto
  from l obtain a b c d r' where r: "r = a # b # c # d # r'"
    by (cases r; cases "tl r"; cases "tl (tl r)"; cases "tl (tl (tl r))") auto
  then show ?thesis using u hx w by auto
qed

lemma unescape_loop_decode:
  "NUL \<notin> set s \<Longrightarrow> well_escaped s \<Longrightarrow>
   \<exists>tail. unescape_loop (done @ s @ NUL # junk) (length done)
            = Inr (done @ decode_spec s @ NUL # tail)
          \<and> length (decode_spec s) + length tail = length s + length junk"
proof (induction "length s" arbitrary: s "done" junk rule: less_induct)
  case less
  show ?case
  proof (cases s)
    case Nil
    have "unescape_loop (done @ NUL # junk) (length done) = Inr (done @ NUL # junk)"
      by (subst unescape_loop.simps) simp
    then show ?thesis using Nil by simp
  next
    case (Cons c s')
    have c0: "c \<noteq> NUL" and n': "NUL \<notin> set s'" using less.prems(1) Cons by auto
    have inb: "length done < length (done @ s @ NUL # junk)" by simp
    have at: "(done @ s @ NUL # junk) ! length done = c" using Cons by simp
    show ?thesis
    proof (cases "c = BACKSLASH")
      case False
      then have w': "well_escaped s'" using less.prems(2) Cons by simp
      have st: "unescape_step (done @ s @ NUL # junk) (length done)
                = Inr ((done @ [c]) @ s' @ NUL # junk, length (done @ [c]))"
        using step_plain[OF False, of "done" "s' @ NUL # junk"] Cons by simp
      from less.hyps[of s' "done @ [c]" junk] n' w' Cons
      obtain tail where
        "unescape_loop ((done @ [c]) @ s' @ NUL # junk) (length (done @ [c]))
           = Inr ((done @ [c]) @ decode_spec s' @ NUL # tail)"
        "length (decode_spec s') + length tail = length s' + length junk"
        by auto
      then show ?thesis
        using unescape_loop_step[OF inb _ st] at c0 Cons False by simp
    next
      case bs: True
      then obtain e r where s': "s' = e # r"
        using less.prems(2) Cons by (cases s') auto
      have nr: "NUL \<notin> set r" using n' s' by simp
      show ?thesis
      proof (cases "is_simple_escape e")
        case True
        then have wr: "well_escaped r" using less.prems(2) Cons bs s' by simp
        have st: "unescape_step (done @ s @ NUL # junk) (length done)
              = Inr ((done @ [simple_escape e]) @ r @ NUL # NUL # junk,
                     length (done @ [simple_escape e]))"
          using step_simple[OF True nr, of "done" junk] Cons bs s' by simp
        from less.hyps[of r "done @ [simple_escape e]" "NUL # junk"] nr wr Cons s'
        obtain tail where
          "unescape_loop ((done @ [simple_escape e]) @ r @ NUL # NUL # junk)
               (length (done @ [simple_escape e]))
             = Inr ((done @ [simple_escape e]) @ decode_spec r @ NUL # tail)"
          "length (decode_spec r) + length tail = length r + length (NUL # junk)"
          by auto
        moreover have "decode_spec s = simple_escape e # decode_spec r"
          using Cons bs s' is_simple_escape_facts[OF True] by simp
        ultimately show ?thesis
          using unescape_loop_step[OF inb _ st] at c0 Cons bs s' by simp
      next
        case False
        have we: "well_escaped (BACKSLASH # e # r)" using less.prems(2) Cons bs s' by simp
        from well_escaped_unicode[OF we False]
        obtain a b c4 d r' where u: "e = CHR ''u''" "r = a # b # c4 # d # r'"
          and hx: "is_hex a" "is_hex b" "is_hex c4" "is_hex d" and wr: "well_escaped r'"
          by blast
        have nr': "NUL \<notin> set r'" using nr u by simp
        define enc where "enc = utf8_encode (code_point [a, b, c4, d])"
        from step_unicode[OF hx nr', of "done" junk]
        obtain t1 where st: "unescape_step (done @ s @ NUL # junk) (length done)
              = Inr ((done @ enc) @ r' @ NUL # t1, length (done @ enc))"
          and l1: "length t1 + length enc = length junk + 6"
          using Cons bs s' u by (auto simp: enc_def)
        from less.hyps[of r' "done @ enc" t1] nr' wr Cons s' u
        obtain tail where
          "unescape_loop ((done @ enc) @ r' @ NUL # t1) (length (done @ enc))
             = Inr ((done @ enc) @ decode_spec r' @ NUL # tail)"
          "length (decode_spec r') + length tail = length r' + length t1"
          by auto
        moreover have "decode_spec s = enc @ decode_spec r'"
          using Cons bs s' u by (simp add: enc_def)
        ultimately show ?thesis
          using unescape_loop_step[OF inb _ st] at c0 Cons bs s' u l1 by simp
      qed
    qed
  qed
qed

lemma string_loop_well_escaped:
  "string_loop s = Some r \<Longrightarrow> s = body @ DQUOTE # r \<Longrightarrow>
     well_escaped body \<and> NUL \<notin> set body"
proof (induction "length s" arbitrary: s body rule: less_induct)
  case less
  note c = string_loop_cases[OF less.prems(1)]
  note sh = less.prems(2)
  have nz: "deref s \<noteq> NUL" using c by simp
  from c consider
      (quote) "deref s = DQUOTE" "r = tl s"
    | (simple) "deref s = BACKSLASH" "is_simple_escape (idx s 1)"
        "string_loop (drop 2 s) = Some r"
    | (uni) "deref s = BACKSLASH" "\<not> is_simple_escape (idx s 1)" "idx s 1 = CHR ''u''"
        "is_hex (idx s 2)" "is_hex (idx s 3)" "is_hex (idx s 4)" "is_hex (idx s 5)"
        "string_loop (drop 6 s) = Some r"
    | (plain) "deref s \<noteq> DQUOTE" "deref s \<noteq> BACKSLASH"
        "string_loop (tl s) = Some r"
    by blast
  then show ?case
  proof cases
    case quote
    have "length s = Suc (length r)" using quote nz by (cases s) (auto simp: deref_def)
    then have "body = []" using sh by simp
    then show ?thesis by simp
  next
    case simple
    have "length r < length (drop 2 s)" using simple(3) by (rule string_loop_length)
    then have "2 \<le> length body" using sh by simp
    then obtain x e body' where b: "body = x # e # body'"
      by (cases body; cases "tl body") auto
    have x: "x = BACKSLASH" "e = idx s 1" using b sh simple(1) by (auto simp: deref_def idx_def)
    have d: "drop 2 s = body' @ DQUOTE # r" using b sh by simp
    have "length (drop 2 s) < length s" using b sh by simp
    from less.hyps[OF this simple(3) d]
    have "well_escaped body' \<and> NUL \<notin> set body'" .
    moreover have "e \<noteq> NUL" using simple(2) x is_simple_escape_facts by auto
    ultimately show ?thesis using b x simple(2) by simp
  next
    case uni
    have "length r < length (drop 6 s)" using uni(8) by (rule string_loop_length)
    then have "6 \<le> length body" using sh by simp
    then obtain x e a b c4 d body' where b: "body = x # e # a # b # c4 # d # body'"
      by (cases body; cases "tl body"; cases "tl (tl body)"; cases "tl (tl (tl body))";
          cases "tl (tl (tl (tl body)))"; cases "tl (tl (tl (tl (tl body))))") auto
    have x: "x = BACKSLASH" "e = idx s 1" "a = idx s 2" "b = idx s 3" "c4 = idx s 4"
      "d = idx s 5"
      using b sh uni(1) by (auto simp: deref_def idx_def)
    have d: "drop 6 s = body' @ DQUOTE # r" using b sh by simp
    have "length (drop 6 s) < length s" using b sh by simp
    from less.hyps[OF this uni(8) d]
    have "well_escaped body' \<and> NUL \<notin> set body'" .
    moreover have "a \<noteq> NUL" "b \<noteq> NUL" "c4 \<noteq> NUL" "d \<noteq> NUL"
      using uni x is_hex_facts by auto
    ultimately show ?thesis using b x uni by simp
  next
    case plain
    have "length r < length (tl s)" using plain(3) by (rule string_loop_length)
    then have "1 \<le> length body" using sh by (cases body) auto
    then obtain x body' where b: "body = x # body'" by (cases body) auto
    have x: "x = deref s" using b sh by (auto simp: deref_def)
    have d: "tl s = body' @ DQUOTE # r" using b sh by simp
    have "length (tl s) < length s" using b sh by simp
    from less.hyps[OF this plain(3) d]
    have "well_escaped body' \<and> NUL \<notin> set body'" .
    then show ?thesis using b x plain nz by simp
  qed
qed

text \<open>
  The body of every literal that \<^verbatim>\<open>p_is_valid_string\<close> accepts is such a string, so the C
  string that the decoder leaves from it is the C string of its decoded text.
\<close>

lemma p_is_valid_string_well_escaped:
  assumes "p_is_valid_string (DQUOTE # body @ DQUOTE # r) = Some r"
  shows "well_escaped body \<and> NUL \<notin> set body"
proof -
  from assms have "string_loop (body @ DQUOTE # r) = Some r"
    by (simp add: p_is_valid_string_def deref_def split: if_splits)
  then show ?thesis by (rule string_loop_well_escaped) simp
qed

lemma c_str_terminated: "c_str (d @ NUL # junk) = c_str d"
  by (induction d) (simp_all add: c_str_def)

lemma p_unescape_string_c_str:
  assumes "p_is_valid_string (DQUOTE # raw @ DQUOTE # r) = Some r"
    and "p_unescape_string (raw @ [NUL]) = Inr buf"
  shows "c_str buf = c_str (decode_spec raw)"
proof -
  from p_is_valid_string_well_escaped[OF assms(1)]
  have w: "well_escaped raw" and n: "NUL \<notin> set raw" by simp_all
  from unescape_loop_decode[OF n w, of "[]" "[]"] obtain tail where
    "p_unescape_string (raw @ [NUL]) = Inr (decode_spec raw @ NUL # tail)"
    by (auto simp: p_unescape_string_def)
  then have "buf = decode_spec raw @ NUL # tail" using assms(2) by simp
  then show ?thesis by (simp add: c_str_terminated)
qed


section \<open>Claim about the escape decoder\<close>

text \<open>
  Claim C7.  On the body \<open>s\<close> of a string, with no zero byte and every backslash starting an
  escape (as in every literal that \<^verbatim>\<open>p_is_valid_string\<close> accepts, lemma
  \<open>p_is_valid_string_well_escaped\<close>), \<^verbatim>\<open>p_unescape_string\<close> returns without a fault and leaves in the
  buffer the decoded text followed by the terminator: each \<^verbatim>\<open>\uXXXX\<close> escape is replaced by the
  one, two or three bytes of the UTF-8 encoding of its code point, and the bytes after the
  escape follow these directly, so that they moved left by six minus the number of bytes
  written.  The bytes after the terminator are what the shifts left behind; together with the
  decoded text they are as many as the body.
\<close>

theorem p_unescape_string_decodes:
  assumes "NUL \<notin> set s" "well_escaped s"
  shows "\<exists>junk. p_unescape_string (s @ [NUL]) = Inr (decode_spec s @ NUL # junk)
           \<and> length (decode_spec s) + length junk = length s"
proof -
  from unescape_loop_decode[OF assms, of "[]" "[]"] show ?thesis
    by (simp add: p_unescape_string_def)
qed

theorem p_unescape_string_decodes_witness:
  "(\<exists>junk. p_unescape_string (BACKSLASH # ''u0041'' @ [NUL]) = Inr (''A'' @ NUL # junk)
        \<and> length junk = 5)
   \<and> (\<exists>junk. p_unescape_string (BACKSLASH # ''u00e9'' @ [NUL])
          = Inr ([CHR 0xC3, CHR 0xA9] @ NUL # junk) \<and> length junk = 4)
   \<and> (\<exists>junk. p_unescape_string (BACKSLASH # ''u20ac'' @ [NUL])
          = Inr ([CHR 0xE2, CHR 0x82, CHR 0xAC] @ NUL # junk) \<and> length junk = 3)"
proof -
  have a: "NUL \<notin> set (BACKSLASH # ''u0041'')" "well_escaped (BACKSLASH # ''u0041'')"
    and da: "decode_spec (BACKSLASH # ''u0041'') = ''A''"
    by code_simp+
  have e: "NUL \<notin> set (BACKSLASH # ''u00e9'')" "well_escaped (BACKSLASH # ''u00e9'')"
    and de: "decode_spec (BACKSLASH # ''u00e9'') = [CHR 0xC3, CHR 0xA9]"
    by code_simp+
  have u: "NUL \<notin> set (BACKSLASH # ''u20ac'')" "well_escaped (BACKSLASH # ''u20ac'')"
    and du: "decode_spec (BACKSLASH # ''u20ac'') = [CHR 0xE2, CHR 0x82, CHR 0xAC]"
    by code_simp+
  from p_unescape_string_decodes[OF a] p_unescape_string_decodes[OF e]
    p_unescape_string_decodes[OF u]
  show ?thesis unfolding da de du by (simp add: eval_nat_numeral)
qed
section \<open>The invariant of the node table\<close>

subsection \<open>Appending children\<close>

text \<open>
  \<open>kids h j\<close> is the array \<^verbatim>\<open>j->children\<close>, empty when the pointer is \<^verbatim>\<open>NULL\<close>.
\<close>

definition kids :: "heap \<Rightarrow> nat \<Rightarrow> nat list" where
  "kids h j = (case children (h ! j) of None \<Rightarrow> [] | Some cs \<Rightarrow> cs)"

text \<open>
  The fields of a node that are set when it is built and never assigned again.
\<close>

definition same_static :: "json \<Rightarrow> json \<Rightarrow> bool" where
  "same_static m n \<longleftrightarrow>
     root m = root n \<and> parent m = parent n \<and> node_type m = node_type n
     \<and> backing_data m = backing_data n \<and> path_name m = path_name n"

text \<open>
  A node as \<^verbatim>\<open>p_build_child_json_node\<close> leaves it: its parent is \<open>j\<close>, its root is the root of its
  parent, and its children are unknown.
\<close>

definition fresh_child :: "nat \<Rightarrow> json \<Rightarrow> json \<Rightarrow> bool" where
  "fresh_child j pn n \<longleftrightarrow>
     parent n = Some j \<and> root n = root pn \<and> children_count n = - 1 \<and> children n = None"

text \<open>
  \<open>grows P j h h'\<close>: the table \<open>h'\<close> is \<open>h\<close> with new nodes appended, each a fresh child of \<open>j\<close> that
  satisfies \<open>P\<close>; node \<open>j\<close> has these nodes appended to its children and its count raised by
  their number; every other node is as it was.
\<close>

definition grows :: "(json \<Rightarrow> bool) \<Rightarrow> nat \<Rightarrow> heap \<Rightarrow> heap \<Rightarrow> bool" where
  "grows P j h h' \<longleftrightarrow>
     length h \<le> length h' \<and>
     (\<forall>a<length h. a \<noteq> j \<longrightarrow> h' ! a = h ! a) \<and>
     same_static (h' ! j) (h ! j) \<and>
     children_count (h' ! j) = children_count (h ! j) + int (length h' - length h) \<and>
     (\<forall>a. length h \<le> a \<and> a < length h' \<longrightarrow> P (h' ! a) \<and> fresh_child j (h ! j) (h' ! a)) \<and>
     kids h' j = kids h j @ [length h..<length h']"

lemma grows_refl: "grows P j h h"
  by (auto simp: grows_def same_static_def)

lemma grows_trans:
  assumes j: "j < length h" and a: "grows P j h h1" and b: "grows P j h1 h2"
  shows "grows P j h h2"
proof -
  have l: "length h \<le> length h1" "length h1 \<le> length h2"
    using a b by (auto simp: grows_def)
  have st: "same_static (h1 ! j) (h ! j)" "same_static (h2 ! j) (h1 ! j)"
    using a b by (auto simp: grows_def)
  have 1: "\<forall>a<length h. a \<noteq> j \<longrightarrow> h2 ! a = h ! a"
    using a b l by (auto simp: grows_def)
  have 2: "same_static (h2 ! j) (h ! j)"
    using st by (auto simp: same_static_def)
  have 3: "children_count (h2 ! j) = children_count (h ! j) + int (length h2 - length h)"
    using a b l by (auto simp: grows_def)
  have 4: "\<forall>a. length h \<le> a \<and> a < length h2 \<longrightarrow> P (h2 ! a) \<and> fresh_child j (h ! j) (h2 ! a)"
  proof (intro allI impI)
    fix a assume r: "length h \<le> a \<and> a < length h2"
    show "P (h2 ! a) \<and> fresh_child j (h ! j) (h2 ! a)"
    proof (cases "a < length h1")
      case True
      then have "h2 ! a = h1 ! a" using b r j by (auto simp: grows_def)
      then show ?thesis using a r True by (auto simp: grows_def)
    next
      case False
      then have "P (h2 ! a) \<and> fresh_child j (h1 ! j) (h2 ! a)"
        using b r by (auto simp: grows_def)
      then show ?thesis using st by (auto simp: fresh_child_def same_static_def)
    qed
  qed
  have 5: "kids h2 j = kids h j @ [length h..<length h2]"
  proof -
    have "[length h..<length h2] = [length h..<length h1] @ [length h1..<length h2]"
      using l by (metis le_Suc_ex upt_add_eq_append)
    then show ?thesis using a b by (auto simp: grows_def)
  qed
  show ?thesis unfolding grows_def using l 1 2 3 4 5 by simp
qed

lemma add_child_length: "length (add_child h j d n t) = Suc (length h)"
  by (simp add: add_child_def p_build_child_json_node_def Let_def)

lemma add_child_other:
  "a < length h \<Longrightarrow> a \<noteq> j \<Longrightarrow> add_child h j d n t ! a = h ! a"
  by (simp add: add_child_def p_build_child_json_node_def nth_append Let_def)

lemma add_child_self:
  "j < length h \<Longrightarrow> add_child h j d n t ! j =
     (h ! j)\<lparr>children_count := children_count (h ! j) + 1,
             children := Some (kids h j @ [length h])\<rparr>"
  by (simp add: add_child_def p_build_child_json_node_def nth_append kids_def Let_def)

lemma add_child_new:
  "j < length h \<Longrightarrow> add_child h j d n t ! length h =
     \<lparr>root = root (h ! j), parent = Some j, node_type = t, backing_data = d, path_name = n,
      children_count = - 1, children = None, value_string = None, value_int = 0\<rparr>"
  by (simp add: add_child_def p_build_child_json_node_def nth_append Let_def)

lemma add_child_grows:
  assumes j: "j < length h"
    and P: "P \<lparr>root = root (h ! j), parent = Some j, node_type = t, backing_data = d,
              path_name = n, children_count = - 1, children = None, value_string = None,
              value_int = 0\<rparr>"
  shows "grows P j h (add_child h j d n t)"
proof -
  have new: "P (add_child h j d n t ! a) \<and> fresh_child j (h ! j) (add_child h j d n t ! a)"
    if "length h \<le> a \<and> a < Suc (length h)" for a
  proof -
    from that have "a = length h" by simp
    then show ?thesis using j P by (simp add: add_child_new fresh_child_def)
  qed
  show ?thesis
    unfolding grows_def
    using j new
    by (simp add: add_child_length add_child_other add_child_self same_static_def kids_def)
qed

subsection \<open>Validators return a suffix of their argument\<close>

lemma p_eat_whitespace_shape:
  "p_eat_whitespace s = Some r \<Longrightarrow> \<exists>w. s = w @ r \<and> (\<forall>c\<in>set w. p_is_whitespace c)"
proof (induction s)
  case Nil
  then show ?case by simp
next
  case (Cons c s)
  show ?case
  proof (cases "p_is_whitespace c \<and> c \<noteq> NUL")
    case True
    then have "p_eat_whitespace s = Some r" using Cons.prems by simp
    then obtain w where "s = w @ r" "\<forall>c\<in>set w. p_is_whitespace c" using Cons.IH by blast
    then have "c # s = (c # w) @ r \<and> (\<forall>x\<in>set (c # w). p_is_whitespace x)"
      using True by simp
    then show ?thesis by blast
  next
    case False
    then have "r = c # s" using Cons.prems by (auto split: if_splits)
    then have "c # s = [] @ r \<and> (\<forall>x\<in>set []. p_is_whitespace x)" by simp
    then show ?thesis by blast
  qed
qed

lemma p_eat_whitespace_suffix: "p_eat_whitespace s = Some r \<Longrightarrow> suffix r s"
  using p_eat_whitespace_shape[of s r] by (auto simp: suffix_def)

lemma p_is_valid_string_shape:
  assumes "p_is_valid_string s = Some r"
  shows "(\<exists>body. s = DQUOTE # body @ DQUOTE # r) \<and> deref r \<noteq> NUL"
proof -
  from assms have q: "deref s = DQUOTE" and l: "string_loop (tl s) = Some r"
    by (auto simp: p_is_valid_string_def split: if_splits)
  from q have s: "s = DQUOTE # tl s" by (cases s) (auto simp: deref_def)
  from string_loop_closing_quote[OF l] obtain body where
    b: "tl s = body @ DQUOTE # r" and n: "deref r \<noteq> NUL" by blast
  from s b have "s = DQUOTE # body @ DQUOTE # r" by simp
  then show ?thesis using n by blast
qed

lemma p_is_valid_string_suffix: "p_is_valid_string s = Some r \<Longrightarrow> suffix r s"
proof -
  assume "p_is_valid_string s = Some r"
  then obtain body where "s = DQUOTE # body @ DQUOTE # r"
    using p_is_valid_string_shape by blast
  then have "s = (DQUOTE # body @ [DQUOTE]) @ r" by simp
  then show ?thesis unfolding suffix_def by blast
qed

lemma eat_digits_suffix: "suffix (eat_digits s) s"
  by (induction s) (auto simp: suffix_Cons)

lemma number_exponent_suffix: "number_exponent s = Some r \<Longrightarrow> suffix r s"
proof -
  assume a: "number_exponent s = Some r"
  then have "r = eat_digits (tl s) \<or> r = eat_digits (tl (tl s))"
    by (auto simp: number_exponent_def Let_def split: if_splits)
  moreover have "suffix (eat_digits (tl s)) s"
    using eat_digits_suffix[of "tl s"] suffix_tl[of s] suffix_order.trans by blast
  moreover have "suffix (eat_digits (tl (tl s))) s"
    using eat_digits_suffix[of "tl (tl s)"] suffix_tl[of s] suffix_tl[of "tl s"]
      suffix_order.trans by blast
  ultimately show ?thesis by auto
qed

lemma number_fraction_suffix: "number_fraction s = Some r \<Longrightarrow> suffix r s"
proof -
  assume a: "number_fraction s = Some r"
  then have "r = eat_digits s \<or> number_exponent (eat_digits s) = Some r
      \<or> number_exponent s = Some r"
    by (auto simp: number_fraction_def Let_def split: if_splits)
  then show ?thesis
    using eat_digits_suffix[of s] number_exponent_suffix suffix_order.trans by blast
qed

lemma p_is_valid_number_suffix: "p_is_valid_number s = Some r \<Longrightarrow> suffix r s"
proof -
  assume a: "p_is_valid_number s = Some r"
  define s0 where "s0 = (if deref s = CHR ''-'' then tl s else s)"
  have s0: "suffix s0 s" by (simp add: s0_def suffix_tl)
  from a have "r = eat_digits s0 \<or> number_fraction (eat_digits s0) = Some r"
    by (auto simp: p_is_valid_number_def Let_def s0_def split: if_splits)
  then have "suffix r s0"
    using eat_digits_suffix[of s0] number_fraction_suffix suffix_order.trans by blast
  then show ?thesis using s0 suffix_order.trans by blast
qed

lemma member_key_suffix: "member_key s = Some r \<Longrightarrow> suffix r s"
proof -
  assume "member_key s = Some r"
  then obtain s1 s2 where
    a: "p_is_valid_string s = Some s1" "p_eat_whitespace s1 = Some s2"
       "p_eat_whitespace (tl s2) = Some r"
    by (auto simp: member_key_def split: option.splits if_splits)
  have "suffix r (tl s2)" using a(3) by (rule p_eat_whitespace_suffix)
  moreover have "suffix (tl s2) s2" by (rule suffix_tl)
  moreover have "suffix s2 s1" using a(2) by (rule p_eat_whitespace_suffix)
  moreover have "suffix s1 s" using a(1) by (rule p_is_valid_string_suffix)
  ultimately show ?thesis using suffix_order.trans by blast
qed

lemma after_value_Continue_suffix: "after_value c s = Continue r \<Longrightarrow> suffix r s"
proof -
  assume "after_value c s = Continue r"
  then obtain s1 where
    a: "p_eat_whitespace s = Some s1" "p_eat_whitespace (tl s1) = Some r"
    by (auto simp: after_value_def split: option.splits if_splits)
  have "suffix r (tl s1)" using a(2) by (rule p_eat_whitespace_suffix)
  moreover have "suffix (tl s1) s1" by (rule suffix_tl)
  moreover have "suffix s1 s" using a(1) by (rule p_eat_whitespace_suffix)
  ultimately show ?thesis using suffix_order.trans by blast
qed

lemma after_value_Return_suffix: "after_value c s = Return (Some r) \<Longrightarrow> suffix r s"
proof -
  assume "after_value c s = Return (Some r)"
  then obtain s1 where a: "p_eat_whitespace s = Some s1" "r = tl s1"
    by (auto simp: after_value_def split: option.splits if_splits)
  have "suffix (tl s1) s1" by (rule suffix_tl)
  moreover have "suffix s1 s" using a(1) by (rule p_eat_whitespace_suffix)
  ultimately show ?thesis using a(2) suffix_order.trans by blast
qed

lemma valid_json_suffix:
  "\<forall>r. p_is_valid_json s t = Some r \<longrightarrow> suffix r s"
  "\<forall>r. object_loop s1 = Some r \<longrightarrow> suffix r s1"
  "\<forall>r. array_loop s2 = Some r \<longrightarrow> suffix r s2"
  "\<forall>r. valid_value s3 = Some r \<longrightarrow> suffix r s3"
proof (induction s t and s1 and s2 and s3
    rule: p_is_valid_json_object_loop_array_loop_valid_value.induct)
  case (1 s t)
  show ?case
  proof (intro allI impI)
    fix r assume r: "p_is_valid_json s t = Some r"
    from r obtain s1 where s1: "p_eat_whitespace (tl s) = Some s1"
      and l: "(t = JSON_OBJECT \<and> deref s = CHR ''{'' \<and> object_loop s1 = Some r)
            \<or> (t \<noteq> JSON_OBJECT \<and> t = JSON_ARRAY \<and> deref s = CHR ''['' \<and> array_loop s1 = Some r)"
      by (subst (asm) p_is_valid_json.simps) (auto split: if_splits option.splits)
    have "suffix r s1" using l s1 "1.IH" by auto
    moreover have "suffix s1 (tl s)" using s1 by (rule p_eat_whitespace_suffix)
    moreover have "suffix (tl s) s" by (rule suffix_tl)
    ultimately show "suffix r s" using suffix_order.trans by blast
  qed
next
  case (2 s)
  show ?case
  proof (intro allI impI)
    fix r assume r: "object_loop s = Some r"
    note ps = r[unfolded object_loop.simps[of s]]
    show "suffix r s"
    proof (cases "deref s = CHR ''}''")
      case True
      then have "r = tl s" using ps by auto
      then show ?thesis by (simp add: suffix_tl)
    next
      case False
      with ps obtain s3 s4 where
        a: "deref s = DQUOTE" "member_key s = Some s3" "valid_value s3 = Some s4"
        and b: "(after_value (CHR ''}'') s4 = Return (Some r))
              \<or> (\<exists>s6. after_value (CHR ''}'') s4 = Continue s6 \<and> object_loop s6 = Some r)"
        by (auto split: if_splits option.splits step.splits)
      have l3: "suffix s3 s" using a(2) by (rule member_key_suffix)
      have l4: "suffix s4 s3" using "2.IH"(1)[OF False a(1) a(2)] a(3) by simp
      from b have "suffix r s4"
      proof
        assume "after_value (CHR ''}'') s4 = Return (Some r)"
        then show ?thesis by (rule after_value_Return_suffix)
      next
        assume "\<exists>s6. after_value (CHR ''}'') s4 = Continue s6 \<and> object_loop s6 = Some r"
        then obtain s6 where
          c: "after_value (CHR ''}'') s4 = Continue s6" "object_loop s6 = Some r"
          by blast
        have "suffix s6 s4" using c(1) by (rule after_value_Continue_suffix)
        moreover have "suffix r s6"
          using "2.IH"(2)[OF False a(1) a(2) a(3) c(1)] c(2) by simp
        ultimately show ?thesis using suffix_order.trans by blast
      qed
      then show ?thesis using l3 l4 suffix_order.trans by blast
    qed
  qed
next
  case (3 s)
  show ?case
  proof (intro allI impI)
    fix r assume r: "array_loop s = Some r"
    note ps = r[unfolded array_loop.simps[of s]]
    show "suffix r s"
    proof (cases "deref s = CHR '']''")
      case True
      then have "r = tl s" using ps by auto
      then show ?thesis by (simp add: suffix_tl)
    next
      case False
      with ps obtain s1 where
        a: "valid_value s = Some s1"
        and b: "(after_value (CHR '']'') s1 = Return (Some r))
              \<or> (\<exists>s3. after_value (CHR '']'') s1 = Continue s3 \<and> array_loop s3 = Some r)"
        by (auto split: if_splits option.splits step.splits)
      have l1: "suffix s1 s" using "3.IH"(1)[OF False] a by simp
      from b have "suffix r s1"
      proof
        assume "after_value (CHR '']'') s1 = Return (Some r)"
        then show ?thesis by (rule after_value_Return_suffix)
      next
        assume "\<exists>s3. after_value (CHR '']'') s1 = Continue s3 \<and> array_loop s3 = Some r"
        then obtain s3 where
          c: "after_value (CHR '']'') s1 = Continue s3" "array_loop s3 = Some r"
          by blast
        have "suffix s3 s1" using c(1) by (rule after_value_Continue_suffix)
        moreover have "suffix r s3"
          using "3.IH"(2)[OF False a c(1)] c(2) by simp
        ultimately show ?thesis using suffix_order.trans by blast
      qed
      then show ?thesis using l1 suffix_order.trans by blast
    qed
  qed
next
  case (4 s)
  show ?case
  proof (intro allI impI)
    fix r assume r: "valid_value s = Some r"
    note ps = r[unfolded valid_value.simps[of s]]
    consider (obj) "deref s = CHR ''{''" "p_is_valid_json s JSON_OBJECT = Some r"
      | (arr) "deref s \<noteq> CHR ''{''" "deref s = CHR ''[''" "p_is_valid_json s JSON_ARRAY = Some r"
      | (lit) "r = drop 4 s \<or> r = drop 5 s"
      | (str) "p_is_valid_string s = Some r"
      | (num) "p_is_valid_number s = Some r"
      using ps by (auto split: if_splits)
    then show "suffix r s"
    proof cases
      case obj then show ?thesis using "4.IH"(1) by fastforce
    next
      case arr then show ?thesis using "4.IH"(2) by fastforce
    next
      case lit then show ?thesis by (auto simp: suffix_drop)
    next
      case str then show ?thesis by (rule p_is_valid_string_suffix)
    next
      case num then show ?thesis by (rule p_is_valid_number_suffix)
    qed
  qed
qed

lemma p_is_valid_json_suffix: "p_is_valid_json s t = Some r \<Longrightarrow> suffix r s"
  using valid_json_suffix(1) by blast

lemma child_value_suffix: "child_value s = (t, Some r) \<Longrightarrow> suffix r s"
  using p_is_valid_json_suffix[of s JSON_OBJECT r] p_is_valid_json_suffix[of s JSON_ARRAY r]
    p_is_valid_string_suffix[of s r] p_is_valid_number_suffix[of s r]
  by (auto simp: child_value_def suffix_drop split: if_splits)

lemma load_tail_suffix: "load_tail c h s = Inr (h', r) \<Longrightarrow> suffix r s \<and> h' = h"
proof -
  assume a: "load_tail c h s = Inr (h', r)"
  then obtain s1 where s1: "p_eat_whitespace s = Some s1"
    by (auto simp: load_tail_def split: option.splits)
  have l1: "suffix s1 s" using s1 by (rule p_eat_whitespace_suffix)
  have "h' = h \<and> (r = tl s1 \<or> r = s1 \<or> p_eat_whitespace (tl s1) = Some r)"
    using a s1 by (auto simp: load_tail_def split: option.splits if_splits)
  moreover have "suffix (tl s1) s1" by (rule suffix_tl)
  ultimately have "h' = h \<and> suffix r s1"
    using p_eat_whitespace_suffix[of "tl s1" r] suffix_order.trans by blast
  then show ?thesis using l1 suffix_order.trans by blast
qed

subsection \<open>Loading a member and an element\<close>

text \<open>
  The character before the opening quote of a member's key: the opening brace, the comma after
  the member before, or white space.
\<close>

definition is_member_start :: "char \<Rightarrow> bool" where
  "is_member_start c \<longleftrightarrow> c = CHR ''{'' \<or> c = CHR '','' \<or> p_is_whitespace c"

text \<open>
  \<open>key_literal data rest raw\<close>: in the text \<open>data\<close> of an object, \<open>raw\<close> is the body of the key
  of the member whose value starts at \<open>rest\<close>.  The key is a string literal that
  \<^verbatim>\<open>p_is_valid_string\<close> accepts; it starts where a member starts; and its closing quote is
  followed by the colon, white space and the value.  Lemma \<open>key_literal_unique\<close> shows that
  \<open>data\<close> and \<open>rest\<close> determine \<open>raw\<close>: the quotes inside a key are escaped, so that no
  later quote of the key stands where a member starts.
\<close>

definition key_literal :: "string \<Rightarrow> string \<Rightarrow> string \<Rightarrow> bool" where
  "key_literal data rest raw \<longleftrightarrow>
     (\<exists>pre ws.
        data = pre @ DQUOTE # raw @ DQUOTE # CHR '':'' # ws @ rest
        \<and> pre \<noteq> [] \<and> is_member_start (last pre)
        \<and> (\<forall>c\<in>set ws. p_is_whitespace c)
        \<and> p_is_valid_string (DQUOTE # raw @ DQUOTE # CHR '':'' # ws @ rest)
            = Some (CHR '':'' # ws @ rest))"

text \<open>
  The name of a member node is the C string of the decoded body of its key.
\<close>

definition member_name :: "string \<Rightarrow> json \<Rightarrow> bool" where
  "member_name data n \<longleftrightarrow>
     (\<exists>raw. key_literal data (backing_data n) raw
        \<and> path_name n = Some (c_str (decode_spec raw)))"

definition no_name :: "json \<Rightarrow> bool" where
  "no_name n \<longleftrightarrow> path_name n = None"

text \<open>
  The cursor of the loading loop stands where a member starts, and from there the validator's
  loop accepts the rest of the object and returns \<open>e\<close>.
\<close>

definition at_member :: "string \<Rightarrow> string \<Rightarrow> string \<Rightarrow> bool" where
  "at_member data e start \<longleftrightarrow>
     (\<exists>pre. data = pre @ start \<and> pre \<noteq> [] \<and> is_member_start (last pre))
     \<and> object_loop start = Some e"




text \<open>
  On a text that the validator accepts, the loader's walk over a member is the validator's.
\<close>

lemma child_value_valid: "child_value s = (t, r) \<Longrightarrow> valid_value s = r"
  by (subst valid_value.simps) (auto simp: child_value_def split: if_splits)

lemma load_tail_sync:
  assumes "load_tail c h s = Inr (h', r)"
  shows "after_value c s = Return (Some e) \<Longrightarrow> r = e"
    and "after_value c s = Continue s6 \<Longrightarrow>
           r = s6 \<and> (\<exists>pre. s = pre @ r \<and> pre \<noteq> [] \<and> is_member_start (last pre))"
proof -
  from assms obtain s1 where s1: "p_eat_whitespace s = Some s1"
    by (auto simp: load_tail_def split: option.splits)
  show "after_value c s = Return (Some e) \<Longrightarrow> r = e"
    using assms s1
    by (auto simp: load_tail_def after_value_def split: option.splits if_splits)
  assume cont: "after_value c s = Continue s6"
  then have d: "deref s1 \<noteq> c" "deref s1 = CHR '',''" "p_eat_whitespace (tl s1) = Some s6"
    using s1 by (auto simp: after_value_def split: option.splits if_splits)
  then have r: "r = s6" using assms s1 by (auto simp: load_tail_def split: if_splits)
  from p_eat_whitespace_shape[OF s1] obtain w where w: "s = w @ s1" by blast
  from d(2) have c1: "s1 = CHR '','' # tl s1" by (cases s1) (auto simp: deref_def)
  from p_eat_whitespace_shape[OF d(3)] obtain w2 where
    w2: "tl s1 = w2 @ s6" "\<forall>c\<in>set w2. p_is_whitespace c" by blast
  have "s = (w @ CHR '','' # w2) @ r" using w c1 w2(1) r by simp
  moreover have "is_member_start (last (w @ CHR '','' # w2))"
    using w2(2) by (cases w2 rule: rev_cases) (auto simp: is_member_start_def)
  ultimately show "r = s6 \<and> (\<exists>pre. s = pre @ r \<and> pre \<noteq> [] \<and> is_member_start (last pre))"
    using r by blast
qed

lemma load_member_grows:
  assumes j: "j < length h" and at: "at_member (backing_data (h ! j)) e start"
    and q: "deref start = DQUOTE"
    and l: "load_member h j start = Inr (h', r)"
  shows "grows (member_name (backing_data (h ! j))) j h h'
         \<and> (r = e \<or> at_member (backing_data (h ! j)) e r)"
proof -
  from l obtain s1 buf s2 t s3 where
    a: "p_is_valid_string start = Some s1"
       "p_unescape_string (take (length start - length s1 - 2) (tl start) @ [NUL]) = Inr buf"
       "deref s1 = CHR '':''"
       "p_eat_whitespace (tl s1) = Some s2"
       "child_value s2 = (t, Some s3)"
       "load_tail (CHR ''}'') (add_child h j s2 (Some (c_str buf)) t) s3 = Inr (h', r)"
    by (auto simp: load_member_def split: option.splits sum.splits if_splits prod.splits)
  from p_is_valid_string_shape[OF a(1)] obtain raw where
    raw: "start = DQUOTE # raw @ DQUOTE # s1" by blast
  then have tk: "take (length start - length s1 - 2) (tl start) = raw" by simp
  from a(3) have s1: "s1 = CHR '':'' # tl s1" by (cases s1) (auto simp: deref_def)
  from p_eat_whitespace_shape[OF a(4)] obtain ws where
    ws: "tl s1 = ws @ s2" "\<forall>c\<in>set ws. p_is_whitespace c" by blast
  from at obtain pre where
    pre: "backing_data (h ! j) = pre @ start" "pre \<noteq> []" "is_member_start (last pre)"
    and ol: "object_loop start = Some e"
    by (auto simp: at_member_def)
  have s1': "s1 = CHR '':'' # ws @ s2" using s1 ws(1) by simp
  have st: "start = DQUOTE # raw @ DQUOTE # CHR '':'' # ws @ s2"
    using raw s1' by simp
  have v: "p_is_valid_string (DQUOTE # raw @ DQUOTE # CHR '':'' # ws @ s2)
             = Some (CHR '':'' # ws @ s2)"
    using a(1) st s1' by simp
  have kl: "key_literal (backing_data (h ! j)) s2 raw"
    unfolding key_literal_def
    apply (rule exI[of _ pre], rule exI[of _ ws])
    using pre st ws(2) v by simp
  have nm: "c_str buf = c_str (decode_spec raw)"
    using p_unescape_string_c_str[OF v] a(2) tk by simp
  have P: "member_name (backing_data (h ! j))
     \<lparr>root = root (h ! j), parent = Some j, node_type = t, backing_data = s2,
      path_name = Some (c_str buf), children_count = - 1, children = None,
      value_string = None, value_int = 0\<rparr>"
    unfolding member_name_def using kl nm by auto
  have g: "grows (member_name (backing_data (h ! j))) j h (add_child h j s2 (Some (c_str buf)) t)"
    using add_child_grows[of j h "member_name (backing_data (h ! j))" t s2 "Some (c_str buf)"] j P
    by simp
  from load_tail_suffix[OF a(6)] have h': "h' = add_child h j s2 (Some (c_str buf)) t"
    by auto
  have mk: "member_key start = Some s2"
    using a(1) a(3) a(4) p_eat_whitespace_id[of s1 s1] s1
    by (cases s1) (auto simp: member_key_def deref_def p_is_whitespace_def split: if_splits)
  have vv: "valid_value s2 = Some s3" using a(5) by (rule child_value_valid)
  from ol mk vv q consider
      (ret) "after_value (CHR ''}'') s3 = Return (Some e)"
    | (cont) s6 where "after_value (CHR ''}'') s3 = Continue s6" "object_loop s6 = Some e"
    by (subst (asm) object_loop.simps) (auto split: if_splits step.splits)
  then have "r = e \<or> at_member (backing_data (h ! j)) e r"
  proof cases
    case ret
    then show ?thesis using load_tail_sync(1)[OF a(6)] by simp
  next
    case cont
    from load_tail_sync(2)[OF a(6) cont(1)] obtain p3 where
      p3: "r = s6" "s3 = p3 @ r" "p3 \<noteq> []" "is_member_start (last p3)" by blast
    from child_value_suffix[OF a(5)] obtain p2 where p2: "s2 = p2 @ s3"
      by (auto simp: suffix_def)
    have "backing_data (h ! j)
          = (pre @ DQUOTE # raw @ DQUOTE # CHR '':'' # ws @ p2 @ p3) @ r"
      using pre(1) st p2 p3(2) by simp
    moreover have "is_member_start (last (pre @ DQUOTE # raw @ DQUOTE # CHR '':'' # ws @ p2 @ p3))"
      using p3(3,4) by simp
    ultimately show ?thesis unfolding at_member_def using cont(2) p3(1) by blast
  qed
  then show ?thesis using g h' by simp
qed

lemma load_element_grows:
  assumes j: "j < length h"
    and l: "load_element h j start = Inr (h', r)"
  shows "grows no_name j h h'"
proof -
  from l obtain s1 t s2 where
    a: "p_eat_whitespace start = Some s1"
       "child_value s1 = (t, Some s2)"
       "load_tail (CHR '']'') (add_child h j s1 None t) s2 = Inr (h', r)"
    by (auto simp: load_element_def split: option.splits sum.splits if_splits prod.splits)
  have "grows no_name j h (add_child h j s1 None t)"
    using add_child_grows[of j h no_name t s1 None] j by (simp add: no_name_def)
  then show ?thesis using load_tail_suffix[OF a(3)] by simp
qed

lemma grows_static:
  "grows P j h h' \<Longrightarrow> j < length h \<Longrightarrow> j < length h' \<and> backing_data (h' ! j) = backing_data (h ! j)"
  by (auto simp: grows_def same_static_def)

lemma object_children_grows:
  "j < length h \<Longrightarrow> start = e \<or> at_member (backing_data (h ! j)) e start \<Longrightarrow>
   object_children h j e start = Inr h' \<Longrightarrow>
   grows (member_name (backing_data (h ! j))) j h h'"
proof (induction h j e start arbitrary: h' rule: object_children.induct)
  case (1 h j e start)
  note r = "1.prems"(3)[unfolded object_children.simps[of h j e start]]
  show ?case
  proof (cases "\<not> length e < length start \<or> deref start = CHR ''}''")
    case True
    then have "h' = h" using r by (auto split: if_splits)
    then show ?thesis by (simp add: grows_refl)
  next
    case False
    then obtain h1 start1 where
      q: "deref start = DQUOTE" and m: "load_member h j start = Inr (h1, start1)"
      and rec: "object_children h1 j e start1 = Inr h'"
      using r by (auto split: if_splits sum.splits)
    have at: "at_member (backing_data (h ! j)) e start" using "1.prems"(2) False by auto
    from load_member_grows[OF "1.prems"(1) at q m]
    have g1: "grows (member_name (backing_data (h ! j))) j h h1"
      and s1: "start1 = e \<or> at_member (backing_data (h ! j)) e start1"
      by auto
    from grows_static[OF g1 "1.prems"(1)]
    have j1: "j < length h1" and bd: "backing_data (h1 ! j) = backing_data (h ! j)" by auto
    have "grows (member_name (backing_data (h ! j))) j h1 h'"
      using "1.IH"[of "(h1, start1)" h1 start1 h'] False q m j1 s1 rec bd by simp
    then show ?thesis using grows_trans[OF "1.prems"(1) g1] by blast
  qed
qed

lemma array_children_grows:
  "j < length h \<Longrightarrow> array_children h j e start = Inr h' \<Longrightarrow> grows no_name j h h'"
proof (induction h j e start arbitrary: h' rule: array_children.induct)
  case (1 h j e start)
  note r = "1.prems"(2)[unfolded array_children.simps[of h j e start]]
  show ?case
  proof (cases "\<not> length e < length start \<or> deref start = CHR '']''")
    case True
    then have "h' = h" using r by (auto split: if_splits)
    then show ?thesis by (simp add: grows_refl)
  next
    case False
    then obtain h1 start1 where
      m: "load_element h j start = Inr (h1, start1)"
      and rec: "array_children h1 j e start1 = Inr h'"
      using r by (auto split: if_splits sum.splits)
    from load_element_grows[OF "1.prems"(1) m]
    have g1: "grows no_name j h h1" .
    from grows_static[OF g1 "1.prems"(1)] have j1: "j < length h1" by auto
    have "grows no_name j h1 h'"
      using "1.IH"[of "(h1, start1)" h1 start1 h'] False m j1 rec by simp
    then show ?thesis using grows_trans[OF "1.prems"(1) g1] by blast
  qed
qed

subsection \<open>The effect of \<^verbatim>\<open>p_lazy_load\<close>\<close>

text \<open>
  What a child knows of its name, by the kind of its parent.
\<close>

definition child_ok :: "json \<Rightarrow> json \<Rightarrow> bool" where
  "child_ok pn n \<longleftrightarrow>
     (node_type pn = JSON_ARRAY \<longrightarrow> path_name n = None)
     \<and> (node_type pn = JSON_OBJECT \<longrightarrow> member_name (backing_data pn) n)"

lemma grows_mono:
  "grows P j h h' \<Longrightarrow> (\<And>n. P n \<Longrightarrow> Q n) \<Longrightarrow> grows Q j h h'"
  unfolding grows_def by blast

lemma grows_update_self:
  assumes "j < length h" "same_static n (h ! j)" "children_count n = children_count (h ! j)"
    "children n = children (h ! j)"
  shows "grows P j h (h[j := n])"
  using assms unfolding grows_def by (auto simp: kids_def)

lemma p_lazy_load_known:
  "j < length h \<Longrightarrow> children_count (h ! j) \<noteq> - 1 \<Longrightarrow> p_lazy_load h (Some j) = Inr h"
  by (simp add: p_lazy_load_def)

lemma p_lazy_load_grows:
  assumes j: "j < length h" and u: "children_count (h ! j) = - 1"
    and l: "p_lazy_load h (Some j) = Inr h'"
  shows "grows (child_ok (h ! j)) j (h[j := (h ! j)\<lparr>children_count := 0\<rparr>]) h'"
proof -
  define h0 where "h0 = h[j := (h ! j)\<lparr>children_count := 0\<rparr>]"
  have j0: "j < length h0" and n0: "h0 ! j = (h ! j)\<lparr>children_count := 0\<rparr>"
    using j by (auto simp: h0_def)
  have bd: "backing_data (h0 ! j) = backing_data (h ! j)" using n0 by simp
  note r = l[unfolded p_lazy_load_def, simplified, folded h0_def]
  consider (num) v where "node_type (h ! j) = JSON_NUMBER" "h' = h0[j := (h0 ! j)\<lparr>value_int := v\<rparr>]"
    | (str) v where "node_type (h ! j) = JSON_STRING" "h' = h0[j := (h0 ! j)\<lparr>value_string := v\<rparr>]"
    | (obj) e start where "node_type (h ! j) = JSON_OBJECT"
        "p_eat_whitespace (tl (backing_data (h ! j))) = Some start"
        "object_children h0 j e start = Inr h'"
        "p_is_valid_json (backing_data (h ! j)) JSON_OBJECT = Some e"
    | (arr) e start where "node_type (h ! j) = JSON_ARRAY"
        "array_children h0 j e start = Inr h'"
    | (leaf) "h' = h0"
    using r j u by (auto simp: Let_def split: if_splits option.splits sum.splits)
  then have "grows (child_ok (h ! j)) j h0 h'"
  proof cases
    case num
    then show ?thesis using grows_update_self[OF j0, of "(h0 ! j)\<lparr>value_int := v\<rparr>"]
      by (simp add: same_static_def)
  next
    case str
    then show ?thesis using grows_update_self[OF j0, of "(h0 ! j)\<lparr>value_string := v\<rparr>"]
      by (simp add: same_static_def)
  next
    case obj
    from obj(4) have b: "deref (backing_data (h ! j)) = CHR ''{''"
      by (subst (asm) p_is_valid_json.simps) (simp split: if_splits)
    then have d: "backing_data (h ! j) = CHR ''{'' # tl (backing_data (h ! j))"
      by (cases "backing_data (h ! j)") (auto simp: deref_def)
    from obj(4) b obj(2) have ol: "object_loop start = Some e"
      by (subst (asm) p_is_valid_json.simps) simp
    from p_eat_whitespace_shape[OF obj(2)] obtain w where
      w: "tl (backing_data (h ! j)) = w @ start" "\<forall>c\<in>set w. p_is_whitespace c" by blast
    have "backing_data (h ! j) = (CHR ''{'' # w) @ start" using d w(1) by simp
    moreover have "is_member_start (last (CHR ''{'' # w))"
      using w(2) by (cases w rule: rev_cases) (auto simp: is_member_start_def)
    ultimately have "at_member (backing_data (h0 ! j)) e start"
      unfolding at_member_def bd using ol by blast
    then have "start = e \<or> at_member (backing_data (h0 ! j)) e start" ..
    from object_children_grows[OF j0 this obj(3)]
    have "grows (member_name (backing_data (h ! j))) j h0 h'" using bd by simp
    then show ?thesis by (rule grows_mono) (simp add: child_ok_def obj(1))
  next
    case arr
    from array_children_grows[OF j0 arr(2)]
    show ?thesis by (rule grows_mono) (simp add: child_ok_def arr(1) no_name_def)
  next
    case leaf
    then show ?thesis by (simp add: grows_refl)
  qed
  then show ?thesis by (simp add: h0_def)
qed

text \<open>What one load does to the table, with the intermediate table eliminated.\<close>

lemma p_lazy_load_effect:
  assumes j: "j < length h" and u: "children_count (h ! j) = - 1"
    and l: "p_lazy_load h (Some j) = Inr h'"
  shows "length h \<le> length h'"
    and "\<forall>a<length h. a \<noteq> j \<longrightarrow> h' ! a = h ! a"
    and "same_static (h' ! j) (h ! j)"
    and "children_count (h' ! j) = int (length h' - length h)"
    and "\<forall>a. length h \<le> a \<and> a < length h' \<longrightarrow>
           child_ok (h ! j) (h' ! a) \<and> fresh_child j (h ! j) (h' ! a)"
    and "kids h' j = kids h j @ [length h..<length h']"
  using p_lazy_load_grows[OF j u l] j
  by (auto simp: grows_def same_static_def fresh_child_def kids_def child_ok_def)

subsection \<open>The invariant and the frame\<close>

text \<open>
  The invariant of a node: its root is the first node of the table; unknown children are a
  \<^verbatim>\<open>NULL\<close> array; a known count is the length of the array; every child is in the table and points
  back to the node; and a node with a parent is not the root and is named as its parent's kind
  says.
\<close>

definition node_ok :: "heap \<Rightarrow> nat \<Rightarrow> bool" where
  "node_ok h a \<longleftrightarrow>
     root (h ! a) = 0 \<and>
     (children_count (h ! a) = - 1 \<longrightarrow> children (h ! a) = None) \<and>
     (children_count (h ! a) \<noteq> - 1 \<longrightarrow> children_count (h ! a) = int (length (kids h a))) \<and>
     (\<forall>c\<in>set (kids h a). c < length h \<and> parent (h ! c) = Some a) \<and>
     (\<forall>p. parent (h ! a) = Some p \<longrightarrow> p < length h \<and> a \<noteq> 0 \<and> child_ok (h ! p) (h ! a))"

definition tree_inv :: "heap \<Rightarrow> bool" where
  "tree_inv h \<longleftrightarrow>
     h \<noteq> [] \<and> parent (h ! 0) = None \<and> path_name (h ! 0) = None \<and>
     (\<forall>a<length h. node_ok h a)"

lemma tree_inv_node: "tree_inv h \<Longrightarrow> a < length h \<Longrightarrow> node_ok h a"
  by (simp add: tree_inv_def)

lemma node_okD:
  assumes "node_ok h a"
  shows "root (h ! a) = 0"
    and "children_count (h ! a) = - 1 \<Longrightarrow> children (h ! a) = None"
    and "children_count (h ! a) \<noteq> - 1 \<Longrightarrow> children_count (h ! a) = int (length (kids h a))"
    and "c \<in> set (kids h a) \<Longrightarrow> c < length h \<and> parent (h ! c) = Some a"
    and "parent (h ! a) = Some p \<Longrightarrow> p < length h \<and> a \<noteq> 0 \<and> child_ok (h ! p) (h ! a)"
  using assms unfolding node_ok_def by blast+

text \<open>
  \<open>frame h h'\<close>: every node of \<open>h\<close> whose children are known is the same node in \<open>h'\<close>.
\<close>

definition frame :: "heap \<Rightarrow> heap \<Rightarrow> bool" where
  "frame h h' \<longleftrightarrow>
     length h \<le> length h' \<and> (\<forall>a<length h. children_count (h ! a) \<noteq> - 1 \<longrightarrow> h' ! a = h ! a)"

lemma frame_refl: "frame h h"
  by (simp add: frame_def)

lemma frame_trans: "frame h h1 \<Longrightarrow> frame h1 h2 \<Longrightarrow> frame h h2"
  unfolding frame_def by (metis le_trans less_le_trans)

lemma child_ok_static:
  "same_static p' p \<Longrightarrow> child_ok p n \<Longrightarrow> child_ok p' n"
  by (simp add: child_ok_def same_static_def)

lemma child_ok_static_child:
  "same_static n' n \<Longrightarrow> child_ok p n \<Longrightarrow> child_ok p n'"
  by (auto simp: child_ok_def same_static_def member_name_def)

lemma p_lazy_load_frame:
  assumes "j < length h" "p_lazy_load h (Some j) = Inr h'"
  shows "frame h h'"
proof (cases "children_count (h ! j) = - 1")
  case True
  from p_lazy_load_effect(1,2)[OF assms(1) True assms(2)] True
  show ?thesis unfolding frame_def by auto
next
  case False
  then have "h' = h" using assms by (simp add: p_lazy_load_def)
  then show ?thesis by (simp add: frame_refl)
qed

lemma p_lazy_load_inv:
  assumes inv: "tree_inv h" and j: "j < length h" and l: "p_lazy_load h (Some j) = Inr h'"
  shows "tree_inv h'"
proof (cases "children_count (h ! j) = - 1")
  case False
  then have "h' = h" using j l by (simp add: p_lazy_load_def)
  then show ?thesis using inv by simp
next
  case u: True
  note e = p_lazy_load_effect[OF j u l]
  have "children (h ! j) = None" using node_okD(2)[OF tree_inv_node[OF inv j] u] .
  then have kj: "kids h j = []" by (simp add: kids_def)
  have len: "length h \<le> length h'" by (rule e(1))
  have ne: "h \<noteq> []" using inv by (simp add: tree_inv_def)
  have old: "h' ! a = h ! a" if "a < length h" "a \<noteq> j" for a using e(2) that by simp
  have st: "same_static (h' ! j) (h ! j)" by (rule e(3))
  have stat: "same_static (h' ! a) (h ! a)" if "a < length h" for a
  proof (cases "a = j")
    case True then show ?thesis using st by simp
  next
    case False then show ?thesis using old[OF that] by (simp add: same_static_def)
  qed
  have new: "child_ok (h ! j) (h' ! a) \<and> fresh_child j (h ! j) (h' ! a)"
    if "length h \<le> a" "a < length h'" for a using e(5) that by simp
  have kids': "kids h' j = [length h..<length h']" using e(6) kj by simp
  have "0 < length h" using ne by simp
  from stat[OF this] have root0: "parent (h' ! 0) = None \<and> path_name (h' ! 0) = None"
    using inv by (simp add: same_static_def tree_inv_def)
  have node: "node_ok h' a" if a: "a < length h'" for a
  proof (cases "a < length h")
    case False
    then have f: "child_ok (h ! j) (h' ! a)" "fresh_child j (h ! j) (h' ! a)"
      using new a by auto
    have r0: "root (h ! j) = 0" using node_okD(1)[OF tree_inv_node[OF inv j]] .
    have c: "child_ok (h' ! j) (h' ! a)" using f(1) st child_ok_static by blast
    have a0: "a \<noteq> 0"
    proof
      assume "a = 0"
      then show False using False ne by simp
    qed
    have jl: "j < length h'" using j len by simp
    show ?thesis
      unfolding node_ok_def using f(2) r0 c a0 jl by (simp add: fresh_child_def kids_def)
  next
    case al: True
    note ia = node_okD[OF tree_inv_node[OF inv al]]
    have par: "p < length h' \<and> a \<noteq> 0 \<and> child_ok (h' ! p) (h' ! a)"
      if "parent (h' ! a) = Some p" for p
    proof -
      from that have pp: "parent (h ! a) = Some p" using stat[OF al] by (simp add: same_static_def)
      from ia(5)[OF pp] have p: "p < length h" "a \<noteq> 0" "child_ok (h ! p) (h ! a)" by auto
      have "child_ok (h' ! p) (h ! a)" using p(3) stat[OF p(1)] child_ok_static by blast
      then have "child_ok (h' ! p) (h' ! a)" using stat[OF al] child_ok_static_child by blast
      then show ?thesis using p len by simp
    qed
    have rt: "root (h' ! a) = 0" using stat[OF al] ia(1) by (simp add: same_static_def)
    show ?thesis
    proof (cases "a = j")
      case True
      have k1: "c < length h' \<and> parent (h' ! c) = Some j" if "c \<in> set (kids h' j)" for c
      proof -
        from that have "length h \<le> c" "c < length h'" using kids' by auto
        from new[OF this] show ?thesis using that kids' by (simp add: fresh_child_def)
      qed
      have k2: "children_count (h' ! j) = int (length (kids h' j))"
        using e(4) kids' by simp
      have k3: "children_count (h' ! j) \<noteq> - 1" using k2 by simp
      show ?thesis unfolding node_ok_def using True rt par k1 k2 k3 by blast
    next
      case False
      have same: "h' ! a = h ! a" using old[OF al False] .
      have k: "kids h' a = kids h a" using same by (simp add: kids_def)
      have k1: "c < length h' \<and> parent (h' ! c) = Some a" if "c \<in> set (kids h' a)" for c
      proof -
        from that have "c \<in> set (kids h a)" using k by simp
        from ia(4)[OF this] have c: "c < length h" "parent (h ! c) = Some a" by auto
        then show ?thesis using stat[OF c(1)] len by (simp add: same_static_def)
      qed
      have k2: "children_count (h' ! a) = - 1 \<Longrightarrow> children (h' ! a) = None"
        using ia(2) same by simp
      have k3: "children_count (h' ! a) \<noteq> - 1 \<Longrightarrow>
                  children_count (h' ! a) = int (length (kids h' a))"
        using ia(3) same k by simp
      show ?thesis unfolding node_ok_def using rt par k1 k2 k3 by blast
    qed
  qed
  have "h' \<noteq> []" using ne len by auto
  then show ?thesis unfolding tree_inv_def using root0 node by blast
qed

subsection \<open>Path resolution keeps the invariant\<close>

fun heap_of :: "traverse_step \<Rightarrow> heap" where
  "heap_of (Result h r) = h"
| "heap_of (Recurse h r p) = h"

lemma traverse_object_heap: "traverse_object h j path = Inr t \<Longrightarrow> heap_of t = h"
  by (auto simp: traverse_object_def Let_def split: sum.splits option.splits if_splits)

lemma traverse_array_faults: "traverse_array h j path = Inl OutOfBounds"
  by (simp add: traverse_array_def scan_bracket_faults)

lemma traverse_node_heap:
  assumes "traverse_node h j path = Inr t"
  shows "heap_of t = h \<or> (children_count (h ! j) = - 1 \<and> p_lazy_load h (Some j) = Inr (heap_of t))"
proof (cases "c_str path = ''..'' \<or> starts_with path ''../'' \<or> starts_with path ''..[''")
  case True
  then have "heap_of t = h" using assms by (auto simp: traverse_node_def split: if_splits)
  then show ?thesis by simp
next
  case False
  then obtain h1 where
    l: "(if children_count (h ! j) = - 1 then p_lazy_load h (Some j) else Inr h) = Inr h1"
    and t: "t = Result h1 None \<or> traverse_object h1 j path = Inr t
            \<or> traverse_array h1 j path = Inr t"
    using assms by (auto simp: traverse_node_def split: if_splits sum.splits)
  from t have "heap_of t = h1"
    using traverse_object_heap traverse_array_faults by fastforce
  then show ?thesis using l by (auto split: if_splits)
qed

lemma p_traverse_json_inv:
  "tree_inv h \<Longrightarrow> p_traverse_json h jp path = Inr (h', r) \<Longrightarrow> tree_inv h' \<and> frame h h'"
proof (induction h jp path arbitrary: h' r rule: p_traverse_json.induct)
  case (1 h jp path)
  note r = "1.prems"(2)[unfolded p_traverse_json.simps[of h jp path]]
  show ?case
  proof (cases "deref path = NUL \<or> jp = None")
    case True
    then have "h' = h" using r by (auto split: if_splits option.splits)
    then show ?thesis using "1.prems"(1) by (simp add: frame_refl)
  next
    case False
    then obtain j t where j: "jp = Some j" "j < length h"
      and t: "traverse_node h j path = Inr t"
      using r by (auto split: if_splits option.splits sum.splits)
    have step: "tree_inv (heap_of t) \<and> frame h (heap_of t)"
      using traverse_node_heap[OF t] "1.prems"(1) j(2)
        p_lazy_load_inv[of h j "heap_of t"] p_lazy_load_frame[of j h "heap_of t"]
      by (auto simp: frame_refl)
    show ?thesis
    proof (cases t)
      case (Result h1 r1)
      then have "h' = h1" using r False j t by (auto split: if_splits)
      then show ?thesis using step Result by simp
    next
      case (Recurse h1 j1 p1)
      then have rec: "p_traverse_json h1 j1 p1 = Inr (h', r)"
        using r False j t by (auto split: if_splits)
      have "tree_inv h' \<and> frame h1 h'"
        using "1.IH"[of j t h1 j1 p1 h' r] False j t Recurse step rec by simp
      then show ?thesis using step Recurse frame_trans by auto
    qed
  qed
qed

subsection \<open>Reachable tables\<close>

lemma p_traverse_json_frame:
  "p_traverse_json h jp path = Inr (h', r) \<Longrightarrow> frame h h'"
proof (induction h jp path arbitrary: h' r rule: p_traverse_json.induct)
  case (1 h jp path)
  note r = "1.prems"(1)[unfolded p_traverse_json.simps[of h jp path]]
  show ?case
  proof (cases "deref path = NUL \<or> jp = None")
    case True
    then have "h' = h" using r by (auto split: if_splits option.splits)
    then show ?thesis by (simp add: frame_refl)
  next
    case False
    then obtain j t where j: "jp = Some j" "j < length h"
      and t: "traverse_node h j path = Inr t"
      using r by (auto split: if_splits option.splits sum.splits)
    have step: "frame h (heap_of t)"
      using traverse_node_heap[OF t] j(2) p_lazy_load_frame[of j h "heap_of t"]
      by (auto simp: frame_refl)
    show ?thesis
    proof (cases t)
      case (Result h1 r1)
      then have "h' = h1" using r False j t by (auto split: if_splits)
      then show ?thesis using step Result by simp
    next
      case (Recurse h1 j1 p1)
      then have rec: "p_traverse_json h1 j1 p1 = Inr (h', r)"
        using r False j t by (auto split: if_splits)
      have "frame h1 h'"
        using "1.IH"[of j t h1 j1 p1 h' r] False j t Recurse rec by simp
      then show ?thesis using step Recurse frame_trans by auto
    qed
  qed
qed

text \<open>
  The operations of the public interface that may change the table.  \<^verbatim>\<open>json_get_name\<close>,
  \<^verbatim>\<open>json_get_data\<close> and \<^verbatim>\<open>json_get_type\<close> only read it.  A table is reachable when it is the
  result of \<^verbatim>\<open>json_parse\<close> followed by any number of such operations, each on any node and with
  any argument, none of which faulted.
\<close>

datatype call =
  Traverse "nat option" string
  | ValueAsString "nat option"
  | ValueAsInt "nat option"
  | ValueAsDouble "nat option"
  | ChildrenCount "nat option"
  | GetChild "nat option" int

fun exec :: "heap \<Rightarrow> call \<Rightarrow> fault + heap" where
  "exec h (Traverse jp path) = map_sum id fst (json_traverse h jp path)"
| "exec h (ValueAsString jp) = map_sum id fst (json_value_as_string h jp)"
| "exec h (ValueAsInt jp) = map_sum id fst (json_value_as_int h jp)"
| "exec h (ValueAsDouble jp) = json_value_as_double h jp"
| "exec h (ChildrenCount jp) = map_sum id fst (json_children_count h jp)"
| "exec h (GetChild jp n) = map_sum id fst (json_get_child h jp n)"

fun run :: "heap \<Rightarrow> call list \<Rightarrow> fault + heap" where
  "run h [] = Inr h"
| "run h (c # cs) = (case exec h c of Inl f \<Rightarrow> Inl f | Inr h' \<Rightarrow> run h' cs)"

inductive reachable :: "heap \<Rightarrow> bool" where
  parsed: "json_parse mem len = Inr (Some (h, r)) \<Longrightarrow> reachable h"
| called: "reachable h \<Longrightarrow> exec h c = Inr h' \<Longrightarrow> reachable h'"

lemma json_parse_root:
  assumes "json_parse mem len = Inr (Some (h, r))"
  shows "\<exists>data t. h = [\<lparr>root = 0, parent = None, node_type = t, backing_data = data,
            path_name = None, children_count = - 1, children = None,
            value_string = None, value_int = 0\<rparr>] \<and> r = 0"
  using assms
  by (auto simp: json_parse_def p_build_root_json_node_def Let_def
      split: if_splits sum.splits option.splits)

lemma json_parse_inv: "json_parse mem len = Inr (Some (h, r)) \<Longrightarrow> tree_inv h"
  using json_parse_root[of mem len h r]
  by (auto simp: tree_inv_def node_ok_def kids_def)

lemma load_if_unknown_inv:
  "tree_inv h \<Longrightarrow> j < length h \<Longrightarrow> load_if_unknown h j = Inr h' \<Longrightarrow> tree_inv h'"
  using p_lazy_load_inv[of h j h'] by (auto simp: load_if_unknown_def split: if_splits)

lemma load_if_unknown_frame:
  "j < length h \<Longrightarrow> load_if_unknown h j = Inr h' \<Longrightarrow> frame h h'"
  using p_lazy_load_frame[of j h h'] by (auto simp: load_if_unknown_def frame_refl split: if_splits)

lemma exec_cases:
  assumes "exec h c = Inr h'"
  shows "h' = h \<or> (\<exists>jp path r. p_traverse_json h jp path = Inr (h', r))
         \<or> (\<exists>j. j < length h \<and> load_if_unknown h j = Inr h')"
proof (cases c)
  case (Traverse jp path)
  then obtain r where "json_traverse h jp path = Inr (h', r)"
    using assms by (cases "json_traverse h jp path") auto
  then show ?thesis
    by (auto simp: json_traverse_def split: option.splits if_splits)
next
  case (ValueAsString jp)
  then obtain r where "json_value_as_string h jp = Inr (h', r)"
    using assms by (cases "json_value_as_string h jp") auto
  then show ?thesis
    by (auto simp: json_value_as_string_def split: option.splits if_splits sum.splits)
next
  case (ValueAsInt jp)
  then obtain r where "json_value_as_int h jp = Inr (h', r)"
    using assms by (cases "json_value_as_int h jp") auto
  then show ?thesis
    by (auto simp: json_value_as_int_def split: option.splits if_splits sum.splits)
next
  case (ValueAsDouble jp)
  then have "json_value_as_double h jp = Inr h'"
    using assms by simp
  then show ?thesis
    by (auto simp: json_value_as_double_def split: option.splits if_splits)
next
  case (ChildrenCount jp)
  then obtain r where "json_children_count h jp = Inr (h', r)"
    using assms by (cases "json_children_count h jp") auto
  then show ?thesis
    by (auto simp: json_children_count_def split: option.splits if_splits sum.splits)
next
  case (GetChild jp n)
  then obtain r where "json_get_child h jp n = Inr (h', r)"
    using assms by (cases "json_get_child h jp n") auto
  then show ?thesis
    by (auto simp: json_get_child_def split: option.splits if_splits sum.splits)
qed

lemma exec_inv: "tree_inv h \<Longrightarrow> exec h c = Inr h' \<Longrightarrow> tree_inv h'"
  using exec_cases[of h c h'] p_traverse_json_inv load_if_unknown_inv by blast

lemma exec_frame: "exec h c = Inr h' \<Longrightarrow> frame h h'"
  using exec_cases[of h c h'] p_traverse_json_frame load_if_unknown_frame frame_refl by blast

lemma run_frame: "run h cs = Inr h' \<Longrightarrow> frame h h'"
proof (induction cs arbitrary: h)
  case Nil
  then show ?case by (simp add: frame_refl)
next
  case (Cons c cs)
  then obtain h1 where "exec h c = Inr h1" "run h1 cs = Inr h'"
    by (auto split: sum.splits)
  then show ?case using Cons.IH exec_frame frame_trans by blast
qed

lemma reachable_inv: "reachable h \<Longrightarrow> tree_inv h"
  by (induction rule: reachable.induct) (auto intro: json_parse_inv exec_inv)

subsection \<open>A single segment leads to a child\<close>

lemma find_child_member:
  "find_child h cs count name i = Inr (Some c) \<Longrightarrow> c \<in> set cs"
proof (induction h cs count name i rule: find_child.induct)
  case (1 h cs count name i)
  then show ?case
    by (subst (asm) (2) find_child.simps) (auto split: if_splits option.splits)
qed

lemma traverse_dotdot:
  "c < length h \<Longrightarrow> json_traverse h (Some c) ''..'' = Inr (h, parent (h ! c))"
  by (simp add: json_traverse_def p_traverse_json.simps traverse_node_def c_str_def deref_def)

text \<open>
  A path of one segment: a name that is not empty, has no \<^verbatim>\<open>'/'\<close> and no \<^verbatim>\<open>'['\<close>, and is not
  \<^verbatim>\<open>..\<close>.
\<close>

definition single_segment :: "string \<Rightarrow> bool" where
  "single_segment s \<longleftrightarrow> s \<noteq> [] \<and> (\<forall>x\<in>set s. \<not> is_name_end x) \<and> s \<noteq> ''..''"

lemma starts_with_member:
  assumes "starts_with s lit" "x \<in> set lit"
  shows "x \<in> set s"
proof -
  from assms(1) have "take (length lit) s = lit" by (simp add: starts_with_def)
  then have "x \<in> set (take (length lit) s)" using assms(2) by simp
  then show ?thesis by (rule in_set_takeD)
qed

lemma single_segment_child:
  assumes inv: "tree_inv h" and r: "r < length h" and seg: "single_segment s"
    and t: "json_traverse h (Some r) s = Inr (h', Some c)"
  shows "tree_inv h' \<and> r < length h' \<and> c \<in> set (kids h' r)"
proof -
  from seg obtain x xs where s: "s = x # xs" and nx: "\<not> is_name_end x"
    by (cases s) (auto simp: single_segment_def)
  have noend: "\<forall>x\<in>set s. \<not> is_name_end x" and nodd: "s \<noteq> ''..''"
    using seg by (auto simp: single_segment_def)
  have d: "deref s \<noteq> CHR ''/''" "deref s \<noteq> NUL"
    using s nx by (auto simp: deref_def is_name_end_def)
  have cs: "c_str s = s"
    using noend by (auto simp: c_str_def is_name_end_def)
  have nsw: "\<not> starts_with s ''../''" "\<not> starts_with s ''..[''"
    using starts_with_member[of s "''../''" "CHR ''/''"]
      starts_with_member[of s "''..[''" "CHR ''[''"] noend
    by (auto simp: is_name_end_def)
  have tw: "takeWhile (\<lambda>c. \<not> is_name_end c) s = s" "dropWhile (\<lambda>c. \<not> is_name_end c) s = []"
    using noend by auto
  from t have p: "p_traverse_json h (Some r) s = Inr (h', Some c)"
    using d by (simp add: json_traverse_def)
  have eq: "p_traverse_json h (Some r) s =
      (case traverse_node h r s of Inl f \<Rightarrow> Inl f
       | Inr (Result h1 r1) \<Rightarrow> Inr (h1, r1)
       | Inr (Recurse h1 j1 p1) \<Rightarrow> p_traverse_json h1 j1 p1)"
    using d r by (subst p_traverse_json.simps) simp
  define L where "L = (if children_count (h ! r) = - 1 then p_lazy_load h (Some r) else Inr h)"
  have tn: "traverse_node h r s =
      (case L of Inl f \<Rightarrow> Inl f
       | Inr h1 \<Rightarrow>
           if children (h1 ! r) = None then Inr (Result h1 None)
           else if node_type (h1 ! r) = JSON_OBJECT then traverse_object h1 r s
           else if node_type (h1 ! r) = JSON_ARRAY then traverse_array h1 r s
           else Inr (Result h1 None))"
    by (simp add: traverse_node_def cs nodd nsw L_def)
  have tobj: "traverse_object g r s =
      (case find_child g (the (children (g ! r))) (children_count (g ! r)) s 0 of
         Inl f \<Rightarrow> Inl f
       | Inr None \<Rightarrow> Inr (Result g None)
       | Inr (Some c) \<Rightarrow> Inr (Result g (Some c)))" for g
    by (simp add: traverse_object_def tw deref_def split: sum.splits option.splits)
  obtain h1 where L: "L = Inr h1"
    using p eq tn by (cases L) auto
  have tn1: "traverse_node h r s =
      (if children (h1 ! r) = None then Inr (Result h1 None)
       else if node_type (h1 ! r) = JSON_OBJECT then traverse_object h1 r s
       else if node_type (h1 ! r) = JSON_ARRAY then traverse_array h1 r s
       else Inr (Result h1 None))"
    using tn L by simp
  have ch: "children (h1 ! r) \<noteq> None"
  proof
    assume "children (h1 ! r) = None"
    then have "traverse_node h r s = Inr (Result h1 None)" using tn1 by simp
    then show False using p eq by simp
  qed
  have ob: "node_type (h1 ! r) = JSON_OBJECT"
  proof (rule ccontr)
    assume n: "node_type (h1 ! r) \<noteq> JSON_OBJECT"
    have "traverse_node h r s = Inl OutOfBounds \<or> traverse_node h r s = Inr (Result h1 None)"
      using tn1 ch n traverse_array_faults by simp
    then show False using p eq by auto
  qed
  have tn2: "traverse_node h r s = traverse_object h1 r s" using tn1 ch ob by simp
  obtain cs0 where cs0: "children (h1 ! r) = Some cs0" using ch by auto
  have fc: "find_child h1 cs0 (children_count (h1 ! r)) s 0 = Inr (Some c) \<and> h' = h1"
  proof (cases "find_child h1 cs0 (children_count (h1 ! r)) s 0")
    case (Inl f)
    then show ?thesis using p eq tn2 tobj[of h1] cs0 by simp
  next
    case (Inr res)
    then show ?thesis using p eq tn2 tobj[of h1] cs0 by (cases res) auto
  qed
  have hh: "h1 = h \<or> p_lazy_load h (Some r) = Inr h1"
    using L by (auto simp: L_def split: if_splits)
  then have inv': "tree_inv h1" using inv r p_lazy_load_inv by blast
  have fr: "frame h h1" using hh r p_lazy_load_frame frame_refl by blast
  then have r': "r < length h1" using r by (auto simp: frame_def)
  have "c \<in> set (kids h1 r)" using fc cs0 find_child_member by (fastforce simp: kids_def)
  then show ?thesis using inv' r' fc by simp
qed

section \<open>Claims about the tree\<close>

text \<open>
  Two examples for the theorems of this section.  The first is the document \<^verbatim>\<open>{"a":[1 ]}\<close>:
  the table after \<^verbatim>\<open>json_parse\<close>, after resolving the path \<^verbatim>\<open>a\<close> from the root (which loads the
  root), and after asking the array for the number of its children (which loads the array).
  Node 0 is the root, node 1 the array, node 2 the number.  The second is the document
  \<^verbatim>\<open>{"x\"y":1 }\<close>, whose key holds an escaped quote: the table after \<^verbatim>\<open>json_parse\<close> and after
  asking the root for the number of its children.
\<close>

definition example_doc :: string where
  "example_doc = ''{'' @ [DQUOTE] @ ''a'' @ [DQUOTE] @ '':[1 ]}''"

definition example_parsed :: heap where
  "example_parsed =
     (case json_parse (example_doc @ [NUL]) 10 of Inr (Some (h, r)) \<Rightarrow> h | _ \<Rightarrow> [])"

definition example_member :: heap where
  "example_member =
     (case exec example_parsed (Traverse (Some 0) ''a'') of Inr h \<Rightarrow> h | _ \<Rightarrow> [])"

definition example_loaded :: heap where
  "example_loaded =
     (case exec example_member (ChildrenCount (Some 1)) of Inr h \<Rightarrow> h | _ \<Rightarrow> [])"

definition example_calls :: "call list" where
  "example_calls = [ChildrenCount (Some 1), Traverse (Some 0) ''a'', ValueAsInt (Some 2)]"

definition example_final :: heap where
  "example_final = (case run example_member example_calls of Inr h \<Rightarrow> h | _ \<Rightarrow> [])"




lemma example_parsed_reachable: "reachable example_parsed"
  by (rule reachable.parsed[of "example_doc @ [NUL]" 10 _ 0]) code_simp

lemma example_member_reachable: "reachable example_member"
  by (rule reachable.called[OF example_parsed_reachable, of "Traverse (Some 0) ''a''"]) code_simp

lemma example_loaded_reachable: "reachable example_loaded"
  by (rule reachable.called[OF example_member_reachable, of "ChildrenCount (Some 1)"]) code_simp



text \<open>
  Claim C8.  In a reachable table, when a path of one segment \<open>s\<close> resolved from a node \<open>r\<close>
  yields the node \<open>c\<close>, the path \<^verbatim>\<open>..\<close> resolved from \<open>c\<close> yields \<open>r\<close>; the same holds for every
  node \<open>c\<close> in the children array of \<open>r\<close>, however it was reached.  The path \<^verbatim>\<open>..\<close> resolved from
  the root, which has no parent, yields \<^verbatim>\<open>NULL\<close>.  The table is returned as it was.
\<close>

theorem dotdot_returns_parent:
  assumes "reachable h"
  shows "(r < length h \<and> single_segment s \<and> json_traverse h (Some r) s = Inr (h', Some c)
            \<longrightarrow> json_traverse h' (Some c) ''..'' = Inr (h', Some r))
       \<and> (r < length h \<and> c \<in> set (kids h r) \<longrightarrow> json_traverse h (Some c) ''..'' = Inr (h, Some r))
       \<and> (a < length h \<longrightarrow> json_traverse h (Some (root (h ! a))) ''..'' = Inr (h, None))"
proof -
  have inv: "tree_inv h" using assms by (rule reachable_inv)
  have child: "json_traverse g (Some c) ''..'' = Inr (g, Some r)"
    if "tree_inv g" "r < length g" "c \<in> set (kids g r)" for g
  proof -
    from node_okD(4)[OF tree_inv_node[OF that(1) that(2)] that(3)]
    show ?thesis using traverse_dotdot by simp
  qed
  have 1: "json_traverse h' (Some c) ''..'' = Inr (h', Some r)"
    if "r < length h \<and> single_segment s \<and> json_traverse h (Some r) s = Inr (h', Some c)"
    using single_segment_child[OF inv, of r s h' c] that child by blast
  have 2: "json_traverse h (Some c) ''..'' = Inr (h, Some r)"
    if "r < length h \<and> c \<in> set (kids h r)"
    using that child inv by blast
  have 3: "json_traverse h (Some (root (h ! a))) ''..'' = Inr (h, None)" if "a < length h"
  proof -
    have "root (h ! a) = 0" using node_okD(1)[OF tree_inv_node[OF inv that]] .
    moreover have "0 < length h" "parent (h ! 0) = None" using inv by (auto simp: tree_inv_def)
    ultimately show ?thesis using traverse_dotdot[of 0 h] by simp
  qed
  show ?thesis using 1 2 3 by blast
qed

theorem dotdot_returns_parent_witness:
  "json_traverse example_parsed (Some 0) ''a'' = Inr (example_member, Some 1)
   \<and> json_traverse example_member (Some 1) ''..'' = Inr (example_member, Some 0)
   \<and> json_traverse example_loaded (Some 2) ''..'' = Inr (example_loaded, Some 1)
   \<and> json_traverse example_loaded (Some 0) ''..'' = Inr (example_loaded, None)"
proof -
  have t: "json_traverse example_parsed (Some 0) ''a'' = Inr (example_member, Some 1)"
    by code_simp
  have s: "single_segment ''a''" by (simp add: single_segment_def is_name_end_def)
  have l: "0 < length example_parsed" "1 < length example_loaded" "0 < length example_loaded"
    by code_simp+
  have k: "2 \<in> set (kids example_loaded 1)" by code_simp
  have r: "root (example_loaded ! 0) = 0" by code_simp
  from dotdot_returns_parent[OF example_parsed_reachable,
      where r = 0 and s = "''a''" and h' = example_member and c = 1] t s l(1)
  have 1: "json_traverse example_member (Some 1) ''..'' = Inr (example_member, Some 0)"
    by simp
  from dotdot_returns_parent[OF example_loaded_reachable, where r = 1 and c = 2 and a = 0]
    k l(2,3) r
  have 2: "json_traverse example_loaded (Some 2) ''..'' = Inr (example_loaded, Some 1)"
    "json_traverse example_loaded (Some 0) ''..'' = Inr (example_loaded, None)"
    by simp_all
  from t 1 2 show ?thesis by simp
qed




text \<open>
  Once the children of a node are known, loading finds them known; and after
  \<^verbatim>\<open>json_children_count\<close> the count is known and a second call returns it with the same table.
\<close>

lemma p_lazy_load_known_after:
  assumes "j < length h" "p_lazy_load h (Some j) = Inr h'"
  shows "j < length h' \<and> children_count (h' ! j) \<noteq> - 1"
proof (cases "children_count (h ! j) = - 1")
  case True
  from p_lazy_load_effect(1,4)[OF assms(1) True assms(2)] assms(1) show ?thesis by auto
next
  case False
  then have "h' = h" using assms by (simp add: p_lazy_load_def)
  then show ?thesis using False assms by simp
qed

lemma load_if_unknown_known_after:
  assumes "j < length h" "load_if_unknown h j = Inr h'"
  shows "j < length h' \<and> children_count (h' ! j) \<noteq> - 1"
proof (cases "children_count (h ! j) = - 1")
  case True
  then have "p_lazy_load h (Some j) = Inr h'" using assms(2) by (simp add: load_if_unknown_def)
  then show ?thesis using assms(1) by (rule p_lazy_load_known_after[rotated])
next
  case False
  then have "h' = h" using assms by (simp add: load_if_unknown_def)
  then show ?thesis using False assms by simp
qed

lemma json_children_count_twice:
  assumes "json_children_count h jp = Inr (h1, n)"
  shows "json_children_count h1 jp = Inr (h1, n)
         \<and> (\<forall>j. jp = Some j \<longrightarrow> children_count (h1 ! j) \<noteq> - 1)"
proof (cases jp)
  case None
  then show ?thesis using assms by (simp add: json_children_count_def)
next
  case (Some j)
  have j: "j < length h"
    using assms Some by (simp add: json_children_count_def split: if_splits)
  then obtain g where l: "load_if_unknown h j = Inr g"
    using assms Some by (cases "load_if_unknown h j") (simp_all add: json_children_count_def)
  then have g: "g = h1" and n: "n = to_int32 (children_count (h1 ! j))"
    using assms Some j by (auto simp: json_children_count_def)
  from load_if_unknown_known_after[OF j l] g
  have k: "j < length h1" "children_count (h1 ! j) \<noteq> - 1" by simp_all
  then show ?thesis using Some n by (simp add: json_children_count_def load_if_unknown_def)
qed

text \<open>
  Claim C10.  A node whose children count is no longer \<open>-1\<close> is the same node, with the same
  count and the same children array, after any sequence of operations of the interface on any
  nodes: its children state is never assigned again.  So the state changes at most once, from
  unknown to its final value.  Calling \<^verbatim>\<open>json_children_count\<close> a second time on the same node
  returns the same count and leaves the table as the first call left it.
\<close>

theorem children_state_final:
  "(run h cs = Inr h' \<and> a < length h \<and> children_count (h ! a) \<noteq> - 1
      \<longrightarrow> a < length h' \<and> children_count (h' ! a) = children_count (h ! a)
          \<and> children (h' ! a) = children (h ! a) \<and> h' ! a = h ! a)
   \<and> (json_children_count h jp = Inr (h1, n)
      \<longrightarrow> json_children_count h1 jp = Inr (h1, n)
          \<and> (\<forall>j. jp = Some j \<longrightarrow> children_count (h1 ! j) \<noteq> - 1))"
proof -
  have 1: "a < length h' \<and> children_count (h' ! a) = children_count (h ! a)
          \<and> children (h' ! a) = children (h ! a) \<and> h' ! a = h ! a"
    if "run h cs = Inr h' \<and> a < length h \<and> children_count (h ! a) \<noteq> - 1"
  proof -
    from that have "frame h h'" using run_frame by blast
    then show ?thesis using that by (auto simp: frame_def)
  qed
  show ?thesis using 1 json_children_count_twice by blast
qed

theorem children_state_final_witness:
  "run example_member example_calls = Inr example_final
   \<and> children_count (example_member ! 0) = 1
   \<and> children_count (example_final ! 0) = 1
   \<and> children (example_final ! 0) = Some [1]
   \<and> example_final ! 0 = example_member ! 0
   \<and> json_children_count example_parsed (Some 0) = Inr (example_member, 1)
   \<and> json_children_count example_member (Some 0) = Inr (example_member, 1)"
proof -
  have r: "run example_member example_calls = Inr example_final" by code_simp
  have l: "0 < length example_member" and c: "children_count (example_member ! 0) = 1"
    and ch: "children (example_member ! 0) = Some [1]"
    by code_simp+
  have j: "json_children_count example_parsed (Some 0) = Inr (example_member, 1)"
    by code_simp
  from children_state_final[where h = example_member and cs = example_calls
      and h' = example_final and a = 0] r l c
  have 1: "children_count (example_final ! 0) = 1"
    "children (example_final ! 0) = children (example_member ! 0)"
    "example_final ! 0 = example_member ! 0"
    by simp_all
  from children_state_final[where h = example_parsed and jp = "Some 0"
      and ?h1.0 = example_member and n = 1] j
  have 2: "json_children_count example_member (Some 0) = Inr (example_member, 1)"
    by simp
  from r c 1 ch 2 j show ?thesis by simp
qed
end
